theory Spec2Isabelle
  imports Main "HOL-Library.Word"
begin

section \<open>Python values used by the RCON client\<close>

text \<open>
  A byte is an 8-bit word, a \<open>bytes\<close> or \<open>bytearray\<close> object a list of bytes.
  A Python \<open>str\<close> is a list of Unicode code points; Python integers are unbounded,
  hence \<open>int\<close>. Every exception the client can meet is a constructor of \<open>error\<close>.
\<close>

type_synonym byte = "8 word"
type_synonym pystr = "nat list"

datatype error =
  OverflowError | UnicodeEncodeError | UnicodeDecodeError | TypeError | AttributeError | OSError

text \<open>An ASCII literal of the source as a \<open>str\<close>.\<close>

definition ascii :: "string \<Rightarrow> pystr" where
  "ascii cs = map of_char cs"

text \<open>\<open>str(n)\<close> for an integer, as an f-string renders it.\<close>

function decimal :: "nat \<Rightarrow> pystr" where
  "decimal n = (if n < 10 then [48 + n] else decimal (n div 10) @ [48 + n mod 10])"
  by pat_completeness auto
termination
  by (relation "measure id") auto

definition str_of_int :: "int \<Rightarrow> pystr" where
  "str_of_int i = (if i < 0 then 45 # decimal (nat (- i)) else decimal (nat i))"

subsection \<open>\<open>int.to_bytes(n, len, "little", signed=False)\<close> and \<open>int.from_bytes\<close>\<close>

fun le_bytes :: "nat \<Rightarrow> int \<Rightarrow> byte list" where
  "le_bytes 0 n = []"
| "le_bytes (Suc k) n = word_of_int n # le_bytes k (n div 256)"

definition int_to_bytes :: "int \<Rightarrow> nat \<Rightarrow> error + byte list" where
  "int_to_bytes n len =
     (if n < 0 \<or> 256 ^ len \<le> n then Inl OverflowError else Inr (le_bytes len n))"

fun int_from_bytes :: "byte list \<Rightarrow> int" where
  "int_from_bytes [] = 0"
| "int_from_bytes (b # bs) = uint b + 256 * int_from_bytes bs"

subsection \<open>The UTF-8 codec: \<open>bytes(s, "UTF-8")\<close> and \<open>str(bs, "UTF-8")\<close>\<close>

text \<open>
  Encoding raises on a lone surrogate. A value from \<open>0x110000\<close> on is no code point
  and cannot occur in a \<open>str\<close>; the model rejects it as well.
\<close>

definition byte_of :: "nat \<Rightarrow> byte" where
  "byte_of n = of_nat n"

definition utf8_encode_cp :: "nat \<Rightarrow> error + byte list" where
  "utf8_encode_cp c =
     (if c < 0x80 then Inr [byte_of c]
      else if c < 0x800 then Inr [byte_of (0xC0 + c div 64), byte_of (0x80 + c mod 64)]
      else if 0xD800 \<le> c \<and> c < 0xE000 then Inl UnicodeEncodeError
      else if c < 0x10000 then
        Inr [byte_of (0xE0 + c div 4096), byte_of (0x80 + c div 64 mod 64),
             byte_of (0x80 + c mod 64)]
      else if c < 0x110000 then
        Inr [byte_of (0xF0 + c div 262144), byte_of (0x80 + c div 4096 mod 64),
             byte_of (0x80 + c div 64 mod 64), byte_of (0x80 + c mod 64)]
      else Inl UnicodeEncodeError)"

fun str_encode :: "pystr \<Rightarrow> error + byte list" where
  "str_encode [] = Inr []"
| "str_encode (c # cs) =
     (case utf8_encode_cp c of
        Inl e \<Rightarrow> Inl e
      | Inr bs \<Rightarrow> (case str_encode cs of Inl e \<Rightarrow> Inl e | Inr rest \<Rightarrow> Inr (bs @ rest)))"

text \<open>
  Strict decoding: a lead byte fixes the number of continuation bytes and the range of
  the first of them, which excludes overlong forms, surrogates and values beyond
  \<open>0x10FFFF\<close>; anything else raises.
\<close>

definition within :: "nat \<Rightarrow> nat \<Rightarrow> byte \<Rightarrow> bool" where
  "within lo hi b = (lo \<le> unat b \<and> unat b \<le> hi)"

definition prepend :: "nat \<Rightarrow> error + pystr \<Rightarrow> error + pystr" where
  "prepend c r = (case r of Inl e \<Rightarrow> Inl e | Inr cs \<Rightarrow> Inr (c # cs))"

text \<open>
  \<open>utf8_decode_cp b bs\<close> reads the character that starts with the lead byte \<open>b\<close>:
  its code point and the number of continuation bytes it takes from \<open>bs\<close>.
\<close>

definition utf8_decode_cp :: "byte \<Rightarrow> byte list \<Rightarrow> error + (nat \<times> nat)" where
  "utf8_decode_cp b bs =
     (if unat b < 0x80 then Inr (unat b, 0)
      else if 0xC2 \<le> unat b \<and> unat b \<le> 0xDF then
        (case bs of
           b1 # r \<Rightarrow>
             if within 0x80 0xBF b1
             then Inr ((unat b - 0xC0) * 64 + (unat b1 - 0x80), 1)
             else Inl UnicodeDecodeError
         | _ \<Rightarrow> Inl UnicodeDecodeError)
      else if 0xE0 \<le> unat b \<and> unat b \<le> 0xEF then
        (case bs of
           b1 # b2 # r \<Rightarrow>
             if within (if unat b = 0xE0 then 0xA0 else 0x80)
                       (if unat b = 0xED then 0x9F else 0xBF) b1 \<and> within 0x80 0xBF b2
             then Inr ((unat b - 0xE0) * 4096 + (unat b1 - 0x80) * 64 + (unat b2 - 0x80), 2)
             else Inl UnicodeDecodeError
         | _ \<Rightarrow> Inl UnicodeDecodeError)
      else if 0xF0 \<le> unat b \<and> unat b \<le> 0xF4 then
        (case bs of
           b1 # b2 # b3 # r \<Rightarrow>
             if within (if unat b = 0xF0 then 0x90 else 0x80)
                       (if unat b = 0xF4 then 0x8F else 0xBF) b1
                \<and> within 0x80 0xBF b2 \<and> within 0x80 0xBF b3
             then Inr ((unat b - 0xF0) * 262144 + (unat b1 - 0x80) * 4096
                       + (unat b2 - 0x80) * 64 + (unat b3 - 0x80), 3)
             else Inl UnicodeDecodeError
         | _ \<Rightarrow> Inl UnicodeDecodeError)
      else Inl UnicodeDecodeError)"

function str_decode :: "byte list \<Rightarrow> error + pystr" where
  "str_decode [] = Inr []"
| "str_decode (b # bs) =
     (case utf8_decode_cp b bs of
        Inl e \<Rightarrow> Inl e
      | Inr (c, k) \<Rightarrow> prepend c (str_decode (drop k bs)))"
  by pat_completeness auto
termination
  by (relation "measure length") auto

section \<open>The packet encoder\<close>

definition SERVERDATA_AUTH :: int where "SERVERDATA_AUTH = 3"
definition SERVERDATA_AUTH_RESPONSE :: int where "SERVERDATA_AUTH_RESPONSE = 2"
definition SERVERDATA_EXECCOMMAND :: int where "SERVERDATA_EXECCOMMAND = 2"
definition SERVERDATA_RESPONSE_VALUE :: int where "SERVERDATA_RESPONSE_VALUE = 0"

text \<open>
  \<open>RCON.__build_packet\<close>: the body is encoded first, then the three integers are
  converted from left to right, each conversion raising \<open>OverflowError\<close> outside
  \<open>0 .. 2^32 - 1\<close>.
\<close>

definition build_packet :: "int \<Rightarrow> int \<Rightarrow> pystr \<Rightarrow> error + byte list" where
  "build_packet packet_id packet_type packet_body =
     (case str_encode packet_body of
        Inl e \<Rightarrow> Inl e
      | Inr body \<Rightarrow>
          (let size = int (length body) + 10 in
           case int_to_bytes size 4 of
             Inl e \<Rightarrow> Inl e
           | Inr sz \<Rightarrow>
               (case int_to_bytes packet_id 4 of
                  Inl e \<Rightarrow> Inl e
                | Inr pid \<Rightarrow>
                    (case int_to_bytes packet_type 4 of
                       Inl e \<Rightarrow> Inl e
                     | Inr pty \<Rightarrow> Inr (sz @ pid @ pty @ body @ [0] @ [0])))))"

section \<open>The session\<close>

subsection \<open>The socket\<close>

text \<open>
  The TCP socket as the client sees it. \<open>wire\<close> holds the bytes the transport has
  accepted so far. \<open>room\<close> is how many bytes the transport accepts in one \<open>send\<close>
  call: \<open>socket.send\<close> returns the number of bytes it has taken, which may be less than
  the length of the data. \<open>shutdown\<close> and \<open>send\<close> raise \<open>OSError\<close> unless the socket
  is connected; \<open>close\<close> always succeeds.
\<close>

datatype conn = Unconnected | Connected | Closed

record socket =
  conn :: conn
  wire :: "byte list"
  room :: nat

definition sock_send :: "byte list \<Rightarrow> socket \<Rightarrow> error + (nat \<times> socket)" where
  "sock_send data sk =
     (if conn sk = Connected
      then (let n = min (length data) (room sk) in Inr (n, sk\<lparr>wire := wire sk @ take n data\<rparr>))
      else Inl OSError)"

definition sock_shutdown :: "socket \<Rightarrow> error + socket" where
  "sock_shutdown sk = (if conn sk = Connected then Inr sk else Inl OSError)"

definition sock_close :: "socket \<Rightarrow> socket" where
  "sock_close sk = sk\<lparr>conn := Closed\<rparr>"

subsection \<open>The \<open>RCON\<close> object\<close>

text \<open>
  \<open>printer\<close> is the output of the \<open>SyncPrinter\<close>: one entry for each call of
  \<open>__print_with_prefix\<close>, holding the message, the packet id and the packet type it was
  given (the printer puts the session's address and the last two in front of the message).
  An entry of \<open>responsed_to\<close> is whatever \<open>__set_responded\<close> was given, \<open>None\<close>
  included.
\<close>

type_synonym log_entry = "pystr \<times> int option \<times> int option"

record session =
  ip :: pystr
  port :: int
  password :: pystr
  sock :: "socket option"
  running :: bool
  responsed_to :: "int option list"
  printer :: "log_entry list"

definition init :: "pystr \<Rightarrow> int \<Rightarrow> pystr \<Rightarrow> log_entry list \<Rightarrow> session" where
  "init rcon_ip rcon_port rcon_password sync_printer =
     \<lparr>ip = rcon_ip, port = rcon_port, password = rcon_password, sock = None,
      running = True, responsed_to = [], printer = sync_printer\<rparr>"

definition set_responded :: "int option \<Rightarrow> session \<Rightarrow> session" where
  "set_responded pid s = s\<lparr>responsed_to := responsed_to s @ [pid]\<rparr>"

definition is_responded :: "int \<Rightarrow> session \<Rightarrow> bool" where
  "is_responded pid s = (Some pid \<in> set (responsed_to s))"

definition is_running :: "session \<Rightarrow> bool" where
  "is_running s = running s"

definition set_running :: "bool \<Rightarrow> session \<Rightarrow> session" where
  "set_running val s = s\<lparr>running := val\<rparr>"

definition print_with_prefix :: "pystr \<Rightarrow> int option \<Rightarrow> int option \<Rightarrow> session \<Rightarrow> session" where
  "print_with_prefix msg pid ptype s = s\<lparr>printer := printer s @ [(msg, pid, ptype)]\<rparr>"

text \<open>
  \<open>RCON.disconnect\<close>: any exception of the two socket calls (the \<open>AttributeError\<close> of
  a session that has no socket yet among them) is caught and gives \<open>False\<close>.
\<close>

definition disconnect :: "session \<Rightarrow> bool \<times> session" where
  "disconnect s =
     (case sock s of
        None \<Rightarrow> (False, s)
      | Some sk \<Rightarrow>
          (case sock_shutdown sk of
             Inl e \<Rightarrow> (False, s)
           | Inr sk1 \<Rightarrow>
               (True, print_with_prefix (ascii ''Disconnected Successfully.'') None None
                        (s\<lparr>sock := Some (sock_close sk1)\<rparr>))))"

text \<open>
  \<open>RCON.send_cmd\<close>: the attribute \<open>self.__sock.send\<close> is looked up before the packet is
  built. The number that \<open>send\<close> returns is dropped.
\<close>

definition send_cmd :: "int \<Rightarrow> pystr \<Rightarrow> session \<Rightarrow> (error + unit) \<times> session" where
  "send_cmd pid content s =
     (case sock s of
        None \<Rightarrow> (Inl AttributeError, s)
      | Some sk \<Rightarrow>
          (case build_packet pid SERVERDATA_EXECCOMMAND content of
             Inl e \<Rightarrow> (Inl e, s)
           | Inr pkt \<Rightarrow>
               (case sock_send pkt sk of
                  Inl e \<Rightarrow> (Inl e, s)
                | Inr (n, sk') \<Rightarrow>
                    (Inr (), print_with_prefix
                               (ascii ''Sent command '' @ [39] @ content @ [39]) None None
                               (s\<lparr>sock := Some sk'\<rparr>)))))"

section \<open>The receive loop\<close>

record packet_data =
  size' :: "int option"
  pack_id :: "int option"
  pack_type :: "int option"
  body :: "pystr option"

definition no_packet :: packet_data where
  "no_packet = \<lparr>size' = None, pack_id = None, pack_type = None, body = None\<rparr>"

text \<open>The local variables of \<open>RCON.__reception\<close>.\<close>

record rx =
  state :: nat
  cur_item :: "byte list"
  cur_struct :: packet_data

definition rx_init :: rx where
  "rx_init = \<lparr>state = 0, cur_item = [], cur_struct = no_packet\<rparr>"

text \<open>
  One turn of \<open>for b in buf\<close>. The branches are tried in the source's order; a byte that
  no branch takes is dropped. In state 3 the comparison reads \<open>cur_struct.size\<close>, a
  \<open>TypeError\<close> when it is still \<open>None\<close>; the state is set to 4 before the body is
  decoded, and a body that does not decode raises out of the loop. An f-string prints a
  body that is \<open>None\<close> as the text \<open>None\<close>.
\<close>

definition rx_byte :: "byte \<Rightarrow> rx \<Rightarrow> session \<Rightarrow> (error + rx) \<times> session" where
  "rx_byte b r s =
     (if state r = 0 \<and> length (cur_item r) < 4 then
        (let item = cur_item r @ [b] in
         if length item = 4
         then (Inr (r\<lparr>state := 1,
                        cur_struct := (cur_struct r)\<lparr>size' := Some (int_from_bytes item)\<rparr>,
                        cur_item := []\<rparr>), s)
         else (Inr (r\<lparr>cur_item := item\<rparr>), s))
      else if state r = 1 \<and> length (cur_item r) < 4 then
        (let item = cur_item r @ [b] in
         if length item = 4
         then (Inr (r\<lparr>state := 2,
                        cur_struct := (cur_struct r)\<lparr>pack_id := Some (int_from_bytes item)\<rparr>,
                        cur_item := []\<rparr>), s)
         else (Inr (r\<lparr>cur_item := item\<rparr>), s))
      else if state r = 2 \<and> length (cur_item r) < 4 then
        (let item = cur_item r @ [b] in
         if length item = 4
         then (Inr (r\<lparr>state := 3,
                        cur_struct := (cur_struct r)\<lparr>pack_type := Some (int_from_bytes item)\<rparr>,
                        cur_item := []\<rparr>), s)
         else (Inr (r\<lparr>cur_item := item\<rparr>), s))
      else if state r = 3 then
        (case size' (cur_struct r) of
           None \<Rightarrow> (Inl TypeError, s)
         | Some sz \<Rightarrow>
             if int (length (cur_item r)) < sz - 9 then
               (let item = cur_item r @ [b] in
                if int (length item) = sz - 9
                then (case str_decode item of
                        Inl e \<Rightarrow> (Inl e, s)
                      | Inr txt \<Rightarrow>
                          (Inr (r\<lparr>state := 4,
                                   cur_struct := (cur_struct r)\<lparr>body := Some txt\<rparr>,
                                   cur_item := []\<rparr>), s))
                else (Inr (r\<lparr>cur_item := item\<rparr>), s))
             else (Inr r, s))
      else if state r = 4 then
        (Inr (r\<lparr>cur_struct := no_packet, state := 0\<rparr>),
         set_responded (pack_id (cur_struct r))
           (print_with_prefix
              (case body (cur_struct r) of None \<Rightarrow> ascii ''None'' | Some txt \<Rightarrow> txt)
              (pack_id (cur_struct r)) (pack_type (cur_struct r)) s))
      else (Inr r, s))"

fun rx_bytes :: "byte list \<Rightarrow> rx \<Rightarrow> session \<Rightarrow> (error + rx) \<times> session" where
  "rx_bytes [] r s = (Inr r, s)"
| "rx_bytes (b # bs) r s =
     (case rx_byte b r s of
        (Inl e, s') \<Rightarrow> (Inl e, s')
      | (Inr r', s') \<Rightarrow> rx_bytes bs r' s')"

text \<open>
  A reception thread has just been started and is about to test the flag for the first
  time, or waits in \<open>recv\<close> with the locals \<open>r\<close>, or has returned, or has died of an
  uncaught exception.
\<close>

datatype thread = Started | Receiving rx | Returned | Raised error

text \<open>What the loop does with a zero-length read, the peer's close.\<close>

definition peer_closed :: "session \<Rightarrow> thread \<times> session" where
  "peer_closed s =
     (case disconnect s of
        (closed, s1) \<Rightarrow>
          (Returned,
           print_with_prefix (ascii ''Reception thread closed.'') None None
             (if closed
              then print_with_prefix
                     (ascii ''Connection closed on other end, stopping reception...'')
                     None None s1
              else s1)))"

text \<open>
  \<open>RCON.__reception\<close> from the head of its loop, with the locals \<open>r\<close>, run on the
  successive results of \<open>sock.recv(4096)\<close>; with none left the thread waits in
  \<open>recv\<close>. The flag is read once before each \<open>recv\<close>.
\<close>

fun reception :: "byte list list \<Rightarrow> rx \<Rightarrow> session \<Rightarrow> thread \<times> session" where
  "reception [] r s =
     (if \<not> running s
      then (Returned, print_with_prefix (ascii ''Reception thread closed.'') None None s)
      else (Receiving r, s))"
| "reception (buf # bufs) r s =
     (if \<not> running s
      then (Returned, print_with_prefix (ascii ''Reception thread closed.'') None None s)
      else if buf = [] then peer_closed s
      else
        (case rx_bytes buf r s of
           (Inl e, s') \<Rightarrow> (Raised e, s')
         | (Inr r', s') \<Rightarrow> reception bufs r' s'))"

text \<open>
  A thread that waits in \<open>recv\<close> has tested the flag already: it handles the next
  result whatever the flag has become, and goes back to the head of the loop.
\<close>

definition resume :: "byte list list \<Rightarrow> rx \<Rightarrow> session \<Rightarrow> thread \<times> session" where
  "resume bufs r s =
     (case bufs of
        [] \<Rightarrow> (Receiving r, s)
      | buf # rest \<Rightarrow>
          if buf = [] then peer_closed s
          else
            (case rx_bytes buf r s of
               (Inl e, s') \<Rightarrow> (Raised e, s')
             | (Inr r', s') \<Rightarrow> reception rest r' s'))"

definition thread_run :: "byte list list \<Rightarrow> thread \<times> session \<Rightarrow> thread \<times> session" where
  "thread_run bufs ts =
     (case ts of
        (Started, s) \<Rightarrow> reception bufs rx_init s
      | (Receiving r, s) \<Rightarrow> resume bufs r s
      | _ \<Rightarrow> ts)"

section \<open>Connecting\<close>

text \<open>
  \<open>RCON.connect\<close> up to its waiting loop. \<open>reachable\<close> says whether the TCP connection
  can be made and \<open>rm\<close> is the \<open>room\<close> of the new socket. The second component is the
  reception thread, once started.
\<close>

definition connect_open ::
  "bool \<Rightarrow> nat \<Rightarrow> session \<Rightarrow> (error + unit) \<times> thread option \<times> session" where
  "connect_open reachable rm s =
     (let s1 = s\<lparr>sock := Some \<lparr>conn = Unconnected, wire = [], room = rm\<rparr>\<rparr> in
      if \<not> reachable then (Inl OSError, None, s1)
      else
        (let sk = \<lparr>conn = Connected, wire = [], room = rm\<rparr>;
             s2 = print_with_prefix
                    (ascii ''Connected to '' @ ip s @ [58] @ str_of_int (port s)
                       @ ascii '' successfully!'') None None (s1\<lparr>sock := Some sk\<rparr>);
             s3 = print_with_prefix (ascii ''Reception thread started.'') None None s2
         in case build_packet 50 SERVERDATA_AUTH (password s3) of
              Inl e \<Rightarrow> (Inl e, Some Started, s3)
            | Inr pkt \<Rightarrow>
                (case sock_send pkt sk of
                   Inl e \<Rightarrow> (Inl e, Some Started, s3)
                 | Inr (n, sk') \<Rightarrow>
                     (Inr (), Some Started,
                      print_with_prefix (ascii ''Password sent.'') None None
                        (s3\<lparr>sock := Some sk'\<rparr>)))))"

text \<open>
  The loop \<open>while not self.is_responded(50): time.sleep(0.2)\<close>. While the caller sleeps
  for the \<open>k\<close>-th time the reception thread handles the \<open>recv\<close> results \<open>feed k\<close>. The
  list of naps holds the length of every sleep in milliseconds. A loop that never ends
  has the value \<open>None\<close>.
\<close>

partial_function (option) auth_wait ::
  "(nat \<Rightarrow> byte list list) \<Rightarrow> nat \<Rightarrow> (thread \<times> session) \<Rightarrow> nat list
     \<Rightarrow> (nat \<times> (thread \<times> session) \<times> nat list) option" where
  "auth_wait feed k ts naps =
     (if is_responded 50 (snd ts) then Some (k, ts, naps)
      else auth_wait feed (Suc k) (thread_run (feed k) ts) (naps @ [200]))"

definition connect ::
  "bool \<Rightarrow> nat \<Rightarrow> (nat \<Rightarrow> byte list list) \<Rightarrow> session
     \<Rightarrow> ((error + unit) \<times> thread option \<times> session \<times> nat list) option" where
  "connect reachable rm feed s =
     (case connect_open reachable rm s of
        (Inl e, th, s') \<Rightarrow> Some (Inl e, th, s', [])
      | (Inr u, None, s') \<Rightarrow> Some (Inr u, None, s', [])
      | (Inr u, Some t, s') \<Rightarrow>
          (case auth_wait feed 0 (t, s') [] of
             None \<Rightarrow> None
           | Some (k, (t', s''), naps) \<Rightarrow> Some (Inr u, Some t', s'', naps)))"

section \<open>Calls on a session\<close>

text \<open>
  The session is shared by the caller's thread and the reception threads that
  \<open>connect\<close> has started; its locks make every access to the flag and to the list of
  responded ids atomic. A run of the object is a sequence of calls: the methods of the
  caller, and \<open>Recv i bufs\<close> for the \<open>i\<close>-th reception thread going through the
  \<open>recv\<close> results \<open>bufs\<close>. The waiting loop of \<open>connect\<close> only calls
  \<open>is_responded\<close>.
\<close>

datatype call =
    Connect_open bool nat
  | Send_cmd int pystr
  | Disconnect
  | Set_running bool
  | Is_running
  | Is_responded int
  | Recv nat "byte list list"

fun step :: "call \<Rightarrow> thread list \<times> session \<Rightarrow> thread list \<times> session" where
  "step (Connect_open reachable rm) (ths, s) =
     (case connect_open reachable rm s of
        (res, None, s') \<Rightarrow> (ths, s')
      | (res, Some t, s') \<Rightarrow> (ths @ [t], s'))"
| "step (Send_cmd pid content) (ths, s) = (ths, snd (send_cmd pid content s))"
| "step Disconnect (ths, s) = (ths, snd (disconnect s))"
| "step (Set_running val) (ths, s) = (ths, set_running val s)"
| "step Is_running (ths, s) = (ths, s)"
| "step (Is_responded pid) (ths, s) = (ths, s)"
| "step (Recv i bufs) (ths, s) =
     (if i < length ths
      then (case thread_run bufs (ths ! i, s) of (t, s') \<Rightarrow> (ths[i := t], s'))
      else (ths, s))"

fun run :: "call list \<Rightarrow> thread list \<times> session \<Rightarrow> thread list \<times> session" where
  "run [] st = st"
| "run (c # cs) st = run cs (step c st)"

text \<open>
  The reception thread and the session as the \<open>n\<close>-th poll of the waiting loop finds
  them, \<open>ts\<close> being what the first poll finds.
\<close>

fun at_poll :: "(nat \<Rightarrow> byte list list) \<Rightarrow> nat \<Rightarrow> thread \<times> session \<Rightarrow> thread \<times> session" where
  "at_poll feed 0 ts = ts"
| "at_poll feed (Suc n) ts = thread_run (feed n) (at_poll feed n ts)"

section \<open>The wire format as the specification words it\<close>

text \<open>
  A 4-byte little-endian unsigned integer: the least significant byte comes first.
\<close>

definition le32 :: "int \<Rightarrow> byte list" where
  "le32 n =
     [word_of_int (n mod 256), word_of_int (n div 256 mod 256),
      word_of_int (n div 65536 mod 256), word_of_int (n div 16777216 mod 256)]"

text \<open>The layout \<open>[size:4][id:4][type:4][body bytes][0x00][0x00]\<close>.\<close>

definition wire_layout :: "int \<Rightarrow> int \<Rightarrow> byte list \<Rightarrow> byte list" where
  "wire_layout pid ptype body_bytes =
     le32 (int (length body_bytes) + 10) @ le32 pid @ le32 ptype @ body_bytes @ [0x00] @ [0x00]"

section \<open>Notions for the statements\<close>

text \<open>
  The session once the receive loop has reported the packets \<open>ps\<close> (id, type and the
  text it printed as the body), in order.
\<close>

definition reported :: "(int \<times> int \<times> pystr) list \<Rightarrow> session \<Rightarrow> session" where
  "reported ps s =
     s\<lparr>responsed_to := responsed_to s @ map (\<lambda>(pid, ptype, printed). Some pid) ps,
       printer := printer s @ map (\<lambda>(pid, ptype, printed). (printed, Some pid, Some ptype)) ps\<rparr>"

text \<open>An entry of the responded-ids collection that is an unsigned 32-bit value.\<close>

definition unsigned32 :: "int option \<Rightarrow> bool" where
  "unsigned32 x = (case x of None \<Rightarrow> False | Some v \<Rightarrow> 0 \<le> v \<and> v < 2 ^ 32)"

section \<open>Properties of the codec\<close>

subsection \<open>Integers and their four bytes\<close>

lemma int_from_le_bytes: "0 \<le> n \<Longrightarrow> n < 256 ^ k \<Longrightarrow> int_from_bytes (le_bytes k n) = n"
proof (induction k arbitrary: n)
  case 0 then show ?case by simp
next
  case (Suc k)
  have "\<And>m::int. n < 256 * m \<Longrightarrow> n div 256 < m" by arith
  then have "n div 256 < 256 ^ k" using Suc.prems by simp
  moreover have "0 \<le> n div 256" using Suc.prems by simp
  ultimately have "int_from_bytes (le_bytes k (n div 256)) = n div 256" by (rule Suc.IH[rotated])
  moreover have "uint (word_of_int n :: byte) = n mod 256" by (simp add: uint_word_of_int take_bit_eq_mod)
  ultimately show ?case by simp
qed

lemma length_le_bytes: "length (le_bytes k n) = k"
  by (induction k arbitrary: n) auto

lemma int_from_bytes_bounds: "0 \<le> int_from_bytes bs \<and> int_from_bytes bs < 256 ^ length bs"
proof (induction bs)
  case Nil then show ?case by simp
next
  case (Cons b bs)
  have "uint b < 256" using uint_bounded[of b] by simp
  moreover have "0 \<le> uint b" by simp
  ultimately show ?case using Cons by simp
qed

lemma int_to_bytes_Inr:
  "int_to_bytes n k = Inr bs \<longleftrightarrow> (0 \<le> n \<and> n < 256 ^ k \<and> bs = le_bytes k n)"
  by (auto simp: int_to_bytes_def)

lemma int_to_bytes_Inl:
  "int_to_bytes n k = Inl e \<longleftrightarrow> ((n < 0 \<or> 256 ^ k \<le> n) \<and> e = OverflowError)"
  by (auto simp: int_to_bytes_def)

subsection \<open>UTF-8: decoding undoes encoding\<close>

lemma unat_byte: "x < 256 \<Longrightarrow> unat (byte_of x) = x"
  by (simp add: byte_of_def unat_of_nat)

lemma dec1: "unat b < 0x80 \<Longrightarrow> utf8_decode_cp b rest = Inr (unat b, 0)"
  by (simp add: utf8_decode_cp_def)

lemma dec2:
  "unat b = 0xC0 + h \<Longrightarrow> 2 \<le> h \<Longrightarrow> h < 32 \<Longrightarrow> unat b1 = 0x80 + l \<Longrightarrow> l < 64
   \<Longrightarrow> utf8_decode_cp b (b1 # rest) = Inr (h * 64 + l, 1)"
  by (simp add: utf8_decode_cp_def within_def)

lemma dec3:
  "unat b = 0xE0 + h \<Longrightarrow> h < 16 \<Longrightarrow> unat b1 = 0x80 + m \<Longrightarrow> m < 64
   \<Longrightarrow> (h = 0 \<longrightarrow> 32 \<le> m) \<Longrightarrow> (h = 13 \<longrightarrow> m < 32)
   \<Longrightarrow> unat b2 = 0x80 + l \<Longrightarrow> l < 64
   \<Longrightarrow> utf8_decode_cp b (b1 # b2 # rest) = Inr (h * 4096 + m * 64 + l, 2)"
  by (auto simp: utf8_decode_cp_def within_def)

lemma dec4:
  "unat b = 0xF0 + h \<Longrightarrow> h < 5 \<Longrightarrow> unat b1 = 0x80 + p \<Longrightarrow> p < 64
   \<Longrightarrow> (h = 0 \<longrightarrow> 16 \<le> p) \<Longrightarrow> (h = 4 \<longrightarrow> p < 16)
   \<Longrightarrow> unat b2 = 0x80 + m \<Longrightarrow> m < 64 \<Longrightarrow> unat b3 = 0x80 + l \<Longrightarrow> l < 64
   \<Longrightarrow> utf8_decode_cp b (b1 # b2 # b3 # rest) = Inr (h * 262144 + p * 4096 + m * 64 + l, 3)"
  by (auto simp: utf8_decode_cp_def within_def)


lemma str_decode_encode_cp:
  assumes "utf8_encode_cp c = Inr bs"
  shows "str_decode (bs @ rest) = prepend c (str_decode rest)"
proof -
  define q where "q = c div 64"
  define p where "p = q div 64"
  define h where "h = p div 64"
  have d: "c div 4096 = p" "c div 262144 = h"
    by (simp_all add: q_def p_def h_def div_mult2_eq)
  have c: "c = 64 * q + c mod 64" "c mod 64 < 64" unfolding q_def by simp_all
  have q: "q = 64 * p + q mod 64" "q mod 64 < 64" unfolding p_def by simp_all
  have p: "p = 64 * h + p mod 64" "p mod 64 < 64" unfolding h_def by simp_all
  consider "c < 0x80" | "0x80 \<le> c" "c < 0x800"
    | "0x800 \<le> c" "c < 0x10000" "\<not> (0xD800 \<le> c \<and> c < 0xE000)"
    | "0x10000 \<le> c" "c < 0x110000"
    using assms by (auto simp: utf8_encode_cp_def split: if_splits)
  then show ?thesis
  proof cases
    case 1
    then have bs: "bs = [byte_of c]" using assms by (simp add: utf8_encode_cp_def)
    have "unat (byte_of c) = c" using 1 by (intro unat_byte) simp
    then show ?thesis using dec1[of "byte_of c" rest] 1 by (simp add: bs)
  next
    case 2
    then have bs: "bs = [byte_of (0xC0 + q), byte_of (0x80 + c mod 64)]"
      using assms by (simp add: utf8_encode_cp_def q_def)
    have r: "2 \<le> q" "q < 32" using 2 c by linarith+
    have u: "unat (byte_of (0xC0 + q)) = 0xC0 + q" "unat (byte_of (0x80 + c mod 64)) = 0x80 + c mod 64"
      using r c(2) by (auto intro!: unat_byte)
    have "q * 64 + c mod 64 = c" using c(1) by simp
    then show ?thesis using dec2[OF u(1) r u(2) c(2), of rest] by (simp add: bs)
  next
    case 3
    then have bs: "bs = [byte_of (0xE0 + p), byte_of (0x80 + q mod 64), byte_of (0x80 + c mod 64)]"
      using assms by (auto simp: utf8_encode_cp_def q_def d split: if_splits)
    have r: "p < 16" "p = 0 \<longrightarrow> 32 \<le> q mod 64" "p = 13 \<longrightarrow> q mod 64 < 32"
      using 3 c q by linarith+
    have u: "unat (byte_of (0xE0 + p)) = 0xE0 + p" "unat (byte_of (0x80 + q mod 64)) = 0x80 + q mod 64"
      "unat (byte_of (0x80 + c mod 64)) = 0x80 + c mod 64"
      using r c(2) q(2) by (auto intro!: unat_byte)
    have "p * 4096 + q mod 64 * 64 + c mod 64 = c" using c(1) q(1) by linarith
    then show ?thesis using dec3[OF u(1) r(1) u(2) q(2) r(2,3) u(3) c(2), of rest] by (simp add: bs)
  next
    case 4
    then have bs: "bs = [byte_of (0xF0 + h), byte_of (0x80 + p mod 64), byte_of (0x80 + q mod 64),
        byte_of (0x80 + c mod 64)]"
      using assms by (auto simp: utf8_encode_cp_def q_def d split: if_splits)
    have r: "h < 5" "h = 0 \<longrightarrow> 16 \<le> p mod 64" "h = 4 \<longrightarrow> p mod 64 < 16"
      using 4 c q p by linarith+
    have u: "unat (byte_of (0xF0 + h)) = 0xF0 + h" "unat (byte_of (0x80 + p mod 64)) = 0x80 + p mod 64"
      "unat (byte_of (0x80 + q mod 64)) = 0x80 + q mod 64"
      "unat (byte_of (0x80 + c mod 64)) = 0x80 + c mod 64"
      using r c(2) q(2) p(2) by (auto intro!: unat_byte)
    have "h * 262144 + p mod 64 * 4096 + q mod 64 * 64 + c mod 64 = c" using c(1) q(1) p(1) by linarith
    then show ?thesis using dec4[OF u(1) r(1) u(2) p(2) r(2,3) u(3) q(2) u(4) c(2), of rest]
      by (simp add: bs)
  qed
qed

lemma str_decode_encode:
  "str_encode s = Inr bs \<Longrightarrow> str_decode rest = Inr t \<Longrightarrow> str_decode (bs @ rest) = Inr (s @ t)"
proof (induction s arbitrary: bs)
  case Nil then show ?case by simp
next
  case (Cons c s)
  then obtain b1 b2 where e: "utf8_encode_cp c = Inr b1" "str_encode s = Inr b2" "bs = b1 @ b2"
    by (auto split: sum.splits)
  have "str_decode (b2 @ rest) = Inr (s @ t)" using Cons.IH[OF e(2) Cons.prems(2)] .
  then show ?case using str_decode_encode_cp[OF e(1), of "b2 @ rest"] e(3)
    by (simp add: prepend_def)
qed

section \<open>Properties of the receive loop\<close>

subsection \<open>The parser, field by field\<close>

lemma rx_bytes_append:
  "rx_bytes (xs @ ys) r s =
     (case rx_bytes xs r s of (Inl e, s') \<Rightarrow> (Inl e, s') | (Inr r', s') \<Rightarrow> rx_bytes ys r' s')"
  by (induction xs arbitrary: r s) (auto split: prod.splits sum.splits)

lemma rx_byte_header:
  assumes "state r = k" "k < 3" "cur_item r = pre" "length pre < 4"
  shows "rx_byte b r s =
     (if length pre = 3
      then (Inr (r\<lparr>state := Suc k,
                   cur_struct :=
                     (if k = 0 then (cur_struct r)\<lparr>size' := Some (int_from_bytes (pre @ [b]))\<rparr>
                      else if k = 1 then (cur_struct r)\<lparr>pack_id := Some (int_from_bytes (pre @ [b]))\<rparr>
                      else (cur_struct r)\<lparr>pack_type := Some (int_from_bytes (pre @ [b]))\<rparr>),
                   cur_item := []\<rparr>), s)
      else (Inr (r\<lparr>cur_item := pre @ [b]\<rparr>), s))"
proof -
  consider "k = 0" | "k = 1" | "k = 2" using assms(2) by linarith
  then show ?thesis using assms by cases (auto simp: rx_byte_def Let_def)
qed

lemma rx_bytes_field:
  assumes "state r = k" "k < 3" "cur_item r = []"
  shows "rx_bytes [a, b, c, d] r s =
     (Inr (r\<lparr>state := Suc k,
              cur_struct :=
                (if k = 0 then (cur_struct r)\<lparr>size' := Some (int_from_bytes [a, b, c, d])\<rparr>
                 else if k = 1 then (cur_struct r)\<lparr>pack_id := Some (int_from_bytes [a, b, c, d])\<rparr>
                 else (cur_struct r)\<lparr>pack_type := Some (int_from_bytes [a, b, c, d])\<rparr>),
              cur_item := []\<rparr>), s)"
proof -
  let ?r1 = "r\<lparr>cur_item := [a]\<rparr>"
  let ?r2 = "r\<lparr>cur_item := [a, b]\<rparr>"
  let ?r3 = "r\<lparr>cur_item := [a, b, c]\<rparr>"
  have 1: "rx_byte a r s = (Inr ?r1, s)"
    using rx_byte_header[OF assms(1,2), of "[]" a s] assms(3) by simp
  have 2: "rx_byte b ?r1 s = (Inr ?r2, s)"
    using rx_byte_header[of ?r1 k "[a]" b s] assms by simp
  have 3: "rx_byte c ?r2 s = (Inr ?r3, s)"
    using rx_byte_header[of ?r2 k "[a, b]" c s] assms by simp
  have 4: "rx_byte d ?r3 s = (Inr (r\<lparr>state := Suc k,
              cur_struct :=
                (if k = 0 then (cur_struct r)\<lparr>size' := Some (int_from_bytes [a, b, c, d])\<rparr>
                 else if k = 1 then (cur_struct r)\<lparr>pack_id := Some (int_from_bytes [a, b, c, d])\<rparr>
                 else (cur_struct r)\<lparr>pack_type := Some (int_from_bytes [a, b, c, d])\<rparr>),
              cur_item := []\<rparr>), s)"
    using rx_byte_header[of ?r3 k "[a, b, c]" d s] assms by simp
  show ?thesis by (simp add: 1 2 3 4)
qed

lemma rx_bytes_body_partial:
  assumes "state r = 3" "size' (cur_struct r) = Some sz"
    and "int (length (cur_item r)) + int (length bs) < sz - 9"
  shows "rx_bytes bs r s = (Inr (r\<lparr>cur_item := cur_item r @ bs\<rparr>), s)"
  using assms
proof (induction bs arbitrary: r)
  case Nil then show ?case by simp
next
  case (Cons b bs)
  let ?r = "r\<lparr>cur_item := cur_item r @ [b]\<rparr>"
  have step: "rx_byte b r s = (Inr ?r, s)"
    using Cons.prems by (simp add: rx_byte_def Let_def)
  have "rx_bytes bs ?r s = (Inr (?r\<lparr>cur_item := cur_item ?r @ bs\<rparr>), s)"
    using Cons.prems by (intro Cons.IH) auto
  then show ?case by (simp add: step)
qed

lemma rx_byte_body_last:
  assumes "state r = 3" "size' (cur_struct r) = Some sz"
    and "int (length (cur_item r)) + 1 = sz - 9"
  shows "rx_byte b r s =
     (case str_decode (cur_item r @ [b]) of
        Inl e \<Rightarrow> (Inl e, s)
      | Inr txt \<Rightarrow>
          (Inr (r\<lparr>state := 4, cur_struct := (cur_struct r)\<lparr>body := Some txt\<rparr>, cur_item := []\<rparr>), s))"
  using assms by (simp add: rx_byte_def Let_def)

lemma rx_bytes_body:
  assumes "state r = 3" "size' (cur_struct r) = Some sz" "cur_item r = []"
    and "int (length bs) = sz - 9" "bs \<noteq> []"
  shows "rx_bytes bs r s =
     (case str_decode bs of
        Inl e \<Rightarrow> (Inl e, s)
      | Inr txt \<Rightarrow>
          (Inr (r\<lparr>state := 4, cur_struct := (cur_struct r)\<lparr>body := Some txt\<rparr>, cur_item := []\<rparr>), s))"
proof -
  obtain xs b where bs: "bs = xs @ [b]" using assms(5) by (metis rev_exhaust)
  let ?r = "r\<lparr>cur_item := xs\<rparr>"
  have p: "rx_bytes xs r s = (Inr ?r, s)"
    using rx_bytes_body_partial[OF assms(1,2), of xs s] assms(3,4) bs by simp
  have l: "rx_byte b ?r s =
     (case str_decode (cur_item ?r @ [b]) of
        Inl e \<Rightarrow> (Inl e, s)
      | Inr txt \<Rightarrow>
          (Inr (?r\<lparr>state := 4, cur_struct := (cur_struct ?r)\<lparr>body := Some txt\<rparr>, cur_item := []\<rparr>), s))"
    using assms bs by (intro rx_byte_body_last[of ?r sz b s]) auto
  show ?thesis
    by (cases "str_decode (xs @ [b])") (simp_all add: bs rx_bytes_append p l)
qed

lemma rx_byte_terminator:
  "state r = 4 \<Longrightarrow> rx_byte b r s =
     (Inr (r\<lparr>cur_struct := no_packet, state := 0\<rparr>),
      set_responded (pack_id (cur_struct r))
        (print_with_prefix (case body (cur_struct r) of None \<Rightarrow> ascii ''None'' | Some txt \<Rightarrow> txt)
           (pack_id (cur_struct r)) (pack_type (cur_struct r)) s))"
  by (simp add: rx_byte_def)

subsection \<open>The parser on a whole frame\<close>

lemma length4E:
  assumes "length xs = 4"
  obtains a b c d where "xs = [a, b, c, d]"
  using assms by (auto simp: length_Suc_conv numeral_eq_Suc)

lemma rx_bytes_header:
  assumes "length szb = 4" "length idb = 4" "length tyb = 4"
  shows "rx_bytes (szb @ idb @ tyb) rx_init s =
     (Inr \<lparr>state = 3, cur_item = [],
           cur_struct = \<lparr>size' = Some (int_from_bytes szb), pack_id = Some (int_from_bytes idb),
                         pack_type = Some (int_from_bytes tyb), body = None\<rparr>\<rparr>, s)"
proof -
  obtain a1 b1 c1 d1 where 1: "szb = [a1, b1, c1, d1]" using assms(1) by (rule length4E)
  obtain a2 b2 c2 d2 where 2: "idb = [a2, b2, c2, d2]" using assms(2) by (rule length4E)
  obtain a3 b3 c3 d3 where 3: "tyb = [a3, b3, c3, d3]" using assms(3) by (rule length4E)
  let ?r1 = "\<lparr>state = 1, cur_item = [],
           cur_struct = \<lparr>size' = Some (int_from_bytes szb), pack_id = None,
                         pack_type = None, body = None\<rparr>\<rparr>"
  let ?r2 = "\<lparr>state = 2, cur_item = [],
           cur_struct = \<lparr>size' = Some (int_from_bytes szb), pack_id = Some (int_from_bytes idb),
                         pack_type = None, body = None\<rparr>\<rparr>"
  have s1: "rx_bytes szb rx_init s = (Inr ?r1, s)"
    unfolding 1 using rx_bytes_field[of rx_init 0 a1 b1 c1 d1 s]
    by (simp add: rx_init_def no_packet_def)
  have s2: "rx_bytes idb ?r1 s = (Inr ?r2, s)"
    unfolding 1 2 using rx_bytes_field[of ?r1 1 a2 b2 c2 d2 s] by (simp add: 1)
  have s3: "rx_bytes tyb ?r2 s = (Inr \<lparr>state = 3, cur_item = [],
           cur_struct = \<lparr>size' = Some (int_from_bytes szb), pack_id = Some (int_from_bytes idb),
                         pack_type = Some (int_from_bytes tyb), body = None\<rparr>\<rparr>, s)"
    unfolding 1 2 3 using rx_bytes_field[of ?r2 2 a3 b3 c3 d3 s] by (simp add: 1 2)
  have "rx_bytes (szb @ idb @ tyb) rx_init s = rx_bytes (idb @ tyb) ?r1 s"
    by (simp only: rx_bytes_append[of szb] s1 prod.case sum.case)
  also have "\<dots> = rx_bytes tyb ?r2 s"
    by (simp only: rx_bytes_append[of idb] s2 prod.case sum.case)
  finally show ?thesis by (simp only: s3)
qed

lemma rx_bytes_frame:
  assumes "length szb = 4" "length idb = 4" "length tyb = 4"
    and "int (length bd) = int_from_bytes szb - 9" "bd \<noteq> []" "str_decode bd = Inr txt"
  shows "rx_bytes (szb @ idb @ tyb @ bd @ [t]) rx_init s =
     (Inr rx_init,
      set_responded (Some (int_from_bytes idb))
        (print_with_prefix txt (Some (int_from_bytes idb)) (Some (int_from_bytes tyb)) s))"
proof -
  let ?r3 = "\<lparr>state = 3, cur_item = [],
           cur_struct = \<lparr>size' = Some (int_from_bytes szb), pack_id = Some (int_from_bytes idb),
                         pack_type = Some (int_from_bytes tyb), body = None\<rparr>\<rparr>"
  let ?r4 = "\<lparr>state = 4, cur_item = [],
           cur_struct = \<lparr>size' = Some (int_from_bytes szb), pack_id = Some (int_from_bytes idb),
                         pack_type = Some (int_from_bytes tyb), body = Some txt\<rparr>\<rparr>"
  have h: "rx_bytes (szb @ idb @ tyb) rx_init s = (Inr ?r3, s)"
    using assms(1-3) by (rule rx_bytes_header)
  have b: "rx_bytes bd ?r3 s = (Inr ?r4, s)"
    using rx_bytes_body[of ?r3 "int_from_bytes szb" bd s] assms(4-6) by simp
  have t: "rx_byte t ?r4 s = (Inr rx_init,
      set_responded (Some (int_from_bytes idb))
        (print_with_prefix txt (Some (int_from_bytes idb)) (Some (int_from_bytes tyb)) s))"
    using rx_byte_terminator[of ?r4 t s] by (simp add: rx_init_def)
  have "rx_bytes (szb @ idb @ tyb @ bd @ [t]) rx_init s
        = rx_bytes ((szb @ idb @ tyb) @ bd @ [t]) rx_init s" by simp
  also have "\<dots> = rx_bytes (bd @ [t]) ?r3 s"
    by (simp only: rx_bytes_append[of "szb @ idb @ tyb"] h prod.case sum.case)
  also have "\<dots> = rx_bytes [t] ?r4 s"
    by (simp only: rx_bytes_append[of bd] b prod.case sum.case)
  also have "\<dots> = (Inr rx_init,
      set_responded (Some (int_from_bytes idb))
        (print_with_prefix txt (Some (int_from_bytes idb)) (Some (int_from_bytes tyb)) s))"
    by (simp add: t)
  finally show ?thesis .
qed

text \<open>What \<open>build_packet\<close> yields when it succeeds.\<close>

lemma build_packet_Inr:
  "build_packet pid ptype txt = Inr pkt \<longleftrightarrow>
     (\<exists>bs. str_encode txt = Inr bs \<and> int (length bs) + 10 < 2 ^ 32
           \<and> 0 \<le> pid \<and> pid < 2 ^ 32 \<and> 0 \<le> ptype \<and> ptype < 2 ^ 32
           \<and> pkt = le_bytes 4 (int (length bs) + 10) @ le_bytes 4 pid @ le_bytes 4 ptype
                   @ bs @ [0, 0])"
  by (auto simp: build_packet_def Let_def int_to_bytes_def split: sum.splits)

lemma str_decode_nul: "str_decode [0] = Inr [0]"
  by (simp add: utf8_decode_cp_def prepend_def)

lemma rx_bytes_build_packet:
  assumes "build_packet pid ptype txt = Inr pkt"
  shows "rx_bytes pkt rx_init s =
     (Inr rx_init,
      set_responded (Some pid) (print_with_prefix (txt @ [0]) (Some pid) (Some ptype) s))"
proof -
  from assms obtain bs where e: "str_encode txt = Inr bs" "int (length bs) + 10 < 2 ^ 32"
    "0 \<le> pid" "pid < 2 ^ 32" "0 \<le> ptype" "ptype < 2 ^ 32"
    "pkt = le_bytes 4 (int (length bs) + 10) @ le_bytes 4 pid @ le_bytes 4 ptype @ bs @ [0, 0]"
    unfolding build_packet_Inr by blast
  let ?sz = "le_bytes 4 (int (length bs) + 10)"
  have sz: "int_from_bytes ?sz = int (length bs) + 10"
    using e(2) by (intro int_from_le_bytes) auto
  have i: "int_from_bytes (le_bytes 4 pid) = pid" using e(3,4) by (intro int_from_le_bytes) auto
  have t: "int_from_bytes (le_bytes 4 ptype) = ptype" using e(5,6) by (intro int_from_le_bytes) auto
  have d: "str_decode (bs @ [0]) = Inr (txt @ [0])"
    using str_decode_encode[OF e(1) str_decode_nul] .
  have "rx_bytes (?sz @ le_bytes 4 pid @ le_bytes 4 ptype @ (bs @ [0]) @ [0]) rx_init s =
     (Inr rx_init,
      set_responded (Some (int_from_bytes (le_bytes 4 pid)))
        (print_with_prefix (txt @ [0]) (Some (int_from_bytes (le_bytes 4 pid)))
           (Some (int_from_bytes (le_bytes 4 ptype))) s))"
    by (rule rx_bytes_frame) (simp_all add: length_le_bytes sz d)
  then show ?thesis by (simp add: e(7) i t)
qed

section \<open>The encoder\<close>

lemma word_of_int_mod_256: "(word_of_int (n mod 256) :: byte) = word_of_int n"
  by (simp add: word_of_int_eq_iff take_bit_eq_mod)

lemma le_bytes_4: "le_bytes 4 n = le32 n"
proof -
  have "n div (256 * 256) = n div 256 div 256"
    by (rule zdiv_zmult2_eq) simp
  moreover have "n div (65536 * 256) = n div 65536 div 256"
    by (rule zdiv_zmult2_eq) simp
  ultimately have "n div 256 div 256 = n div 65536" "n div 256 div 256 div 256 = n div 16777216"
    by simp_all
  then show ?thesis
    by (simp add: le32_def numeral_eq_Suc word_of_int_mod_256)
qed

lemma build_packet_wire_layout:
  assumes "str_encode txt = Inr bs" "int (length bs) + 10 < 2 ^ 32"
    "0 \<le> pid" "pid < 2 ^ 32" "0 \<le> ptype" "ptype < 2 ^ 32"
  shows "build_packet pid ptype txt = Inr (wire_layout pid ptype bs)"
  using assms by (simp add: build_packet_Inr wire_layout_def le_bytes_4 del: le_bytes.simps)

lemma int_from_le32: "0 \<le> n \<Longrightarrow> n < 2 ^ 32 \<Longrightarrow> int_from_bytes (le32 n) = n"
  using int_from_le_bytes[of n 4] by (simp only: le_bytes_4) simp

lemma str_encode_ascii_run: "str_encode (replicate n 97) = Inr (replicate n 97)"
  by (induction n) (simp_all add: utf8_encode_cp_def byte_of_def)

text \<open>
  Claim C4, as stated, covers every UTF-8 body. A body whose encoding has \<open>2^32 - 10\<close>
  bytes is UTF-8 text, yet its size field does not fit four bytes and the encoder raises.
\<close>

theorem build_packet_huge_body:
  "str_encode (replicate 4294967286 97) = Inr (replicate 4294967286 97)
   \<and> build_packet 50 3 (replicate 4294967286 97) = Inl OverflowError"
  by (simp add: build_packet_def str_encode_ascii_run int_to_bytes_def)

text \<open>
  Claim C4 (amended): for every id and type in unsigned 32-bit range and every UTF-8 body
  whose encoding is at most \<open>2^32 - 11\<close> bytes long, \<open>__build_packet\<close> emits exactly
  the size, the id and the type as 4-byte little-endian integers, the body bytes and two
  zero bytes, the size field being the length of the encoded body plus 10; and
  \<open>encode(50, 3, "hunter2")\<close> is the 21-byte sequence of the specification.
\<close>

theorem build_packet_layout:
  assumes "str_encode txt = Inr bs" "int (length bs) + 10 < 2 ^ 32"
    and "0 \<le> pid" "pid < 2 ^ 32" "0 \<le> ptype" "ptype < 2 ^ 32"
  shows "build_packet pid ptype txt
           = Inr (le32 (int (length bs) + 10) @ le32 pid @ le32 ptype @ bs @ [0x00] @ [0x00])
         \<and> int_from_bytes (le32 (int (length bs) + 10)) = int (length bs) + 10
         \<and> int_from_bytes (le32 pid) = pid \<and> int_from_bytes (le32 ptype) = ptype
         \<and> build_packet 50 3 (ascii ''hunter2'')
             = Inr [0x11, 0, 0, 0, 0x32, 0, 0, 0, 3, 0, 0, 0,
                    0x68, 0x75, 0x6E, 0x74, 0x65, 0x72, 0x32, 0x00, 0x00]"
proof -
  have "build_packet 50 3 (ascii ''hunter2'')
             = Inr [0x11, 0, 0, 0, 0x32, 0, 0, 0, 3, 0, 0, 0,
                    0x68, 0x75, 0x6E, 0x74, 0x65, 0x72, 0x32, 0x00, 0x00]"
    by (simp add: build_packet_def ascii_def utf8_encode_cp_def byte_of_def int_to_bytes_def
          numeral_eq_Suc)
  moreover have "int_from_bytes (le32 (int (length bs) + 10)) = int (length bs) + 10"
    using assms(2) by (intro int_from_le32) auto
  ultimately show ?thesis
    using build_packet_wire_layout[OF assms] int_from_le32[OF assms(3,4)] int_from_le32[OF assms(5,6)]
    by (simp add: wire_layout_def)
qed

theorem build_packet_layout_witness:
  "str_encode [0x20AC] = Inr [0xE2, 0x82, 0xAC]
   \<and> int (length [0xE2, 0x82, 0xAC :: byte]) + 10 < 2 ^ 32
   \<and> (0::int) \<le> 7 \<and> (7::int) < 2 ^ 32 \<and> (0::int) \<le> 2 \<and> (2::int) < 2 ^ 32
   \<and> build_packet 7 2 [0x20AC]
       = Inr [13, 0, 0, 0, 7, 0, 0, 0, 2, 0, 0, 0, 0xE2, 0x82, 0xAC, 0, 0]"
proof -
  have e: "str_encode [0x20AC] = Inr [0xE2, 0x82, 0xAC]"
    by (simp add: utf8_encode_cp_def byte_of_def)
  show ?thesis using build_packet_layout[OF e, of 7 2] e by (simp add: le32_def)
qed

section \<open>The receive loop on chunks\<close>

subsection \<open>What the parser leaves alone\<close>

lemma rx_byte_session:
  "rx_byte b r s = (res, s') \<Longrightarrow>
     running s' = running s \<and> sock s' = sock s \<and> ip s' = ip s \<and> port s' = port s
     \<and> password s' = password s"
  by (auto simp: rx_byte_def Let_def set_responded_def print_with_prefix_def
           split: if_splits option.splits sum.splits)

lemma rx_bytes_session:
  "rx_bytes bs r s = (res, s') \<Longrightarrow>
     running s' = running s \<and> sock s' = sock s \<and> ip s' = ip s \<and> port s' = port s
     \<and> password s' = password s"
proof (induction bs arbitrary: r s)
  case Nil then show ?case by simp
next
  case (Cons b bs)
  obtain res1 s1 where 1: "rx_byte b r s = (res1, s1)" by (cases "rx_byte b r s")
  note f = rx_byte_session[OF 1]
  show ?case
  proof (cases res1)
    case (Inl e)
    then show ?thesis using Cons.prems 1 f by simp
  next
    case (Inr r1)
    then have "rx_bytes bs r1 s1 = (res, s')" using Cons.prems 1 by simp
    from Cons.IH[OF this] f show ?thesis by simp
  qed
qed

subsection \<open>Chunks of the stream\<close>

lemma reception_chunks:
  assumes "running s" "[] \<notin> set bufs"
  shows "reception bufs r s =
     (case rx_bytes (concat bufs) r s of
        (Inl e, s') \<Rightarrow> (Raised e, s')
      | (Inr r', s') \<Rightarrow> (Receiving r', s'))"
  using assms
proof (induction bufs arbitrary: r s)
  case Nil then show ?case by simp
next
  case (Cons buf bufs)
  obtain res1 s1 where 1: "rx_bytes buf r s = (res1, s1)" by (cases "rx_bytes buf r s")
  have run1: "running s1" using rx_bytes_session[OF 1] Cons.prems(1) by simp
  have ne: "buf \<noteq> []" "[] \<notin> set bufs" using Cons.prems(2) by auto
  show ?case
  proof (cases res1)
    case (Inl e)
    then show ?thesis using Cons.prems(1) ne(1) 1 by (simp add: rx_bytes_append)
  next
    case (Inr r1)
    have "reception bufs r1 s1 =
     (case rx_bytes (concat bufs) r1 s1 of
        (Inl e, s') \<Rightarrow> (Raised e, s')
      | (Inr r', s') \<Rightarrow> (Receiving r', s'))"
      using run1 ne(2) by (rule Cons.IH)
    then show ?thesis using Cons.prems(1) ne(1) 1 Inr by (simp add: rx_bytes_append)
  qed
qed

lemma reported_Nil: "reported [] s = s"
  by (simp add: reported_def)

lemma reported_Cons:
  "reported ((pid, ptype, printed) # ps) s =
     reported ps (set_responded (Some pid) (print_with_prefix printed (Some pid) (Some ptype) s))"
  by (simp add: reported_def set_responded_def print_with_prefix_def)

lemma rx_bytes_packets:
  assumes "list_all2 (\<lambda>(pid, ptype, tx) pkt. build_packet pid ptype tx = Inr pkt) ps pkts"
  shows "rx_bytes (concat pkts) rx_init s =
           (Inr rx_init, reported (map (\<lambda>(pid, ptype, tx). (pid, ptype, tx @ [0])) ps) s)"
  using assms
proof (induction ps pkts arbitrary: s rule: list_all2_induct)
  case Nil then show ?case by (simp add: reported_Nil)
next
  case (Cons p ps pkt pkts)
  obtain pid ptype tx where p: "p = (pid, ptype, tx)" by (cases p)
  have b: "build_packet pid ptype tx = Inr pkt" using Cons.hyps(1) p by simp
  show ?case
    by (simp add: rx_bytes_append rx_bytes_build_packet[OF b] Cons.IH p reported_Cons)
qed

lemma build_packet_nonempty: "build_packet pid ptype txt = Inr pkt \<Longrightarrow> pkt \<noteq> []"
  by (auto simp: build_packet_Inr)


lemma reception_packets:
  assumes "list_all2 (\<lambda>(pid, ptype, tx) pkt. build_packet pid ptype tx = Inr pkt) ps pkts"
    and "concat bufs = concat pkts" "[] \<notin> set bufs" "running s"
  shows "reception bufs rx_init s =
           (Receiving rx_init, reported (map (\<lambda>(pid, ptype, tx). (pid, ptype, tx @ [0])) ps) s)"
  using reception_chunks[OF assms(4,3), of rx_init] rx_bytes_packets[OF assms(1), of s]
  by (simp add: assms(2))

lemma reported_fields:
  "responsed_to (reported (map (\<lambda>(pid, ptype, tx). (pid, ptype, tx @ [0])) ps) s)
     = responsed_to s @ map (\<lambda>(pid, ptype, tx). Some pid) ps"
  "printer (reported (map (\<lambda>(pid, ptype, tx). (pid, ptype, tx @ [0])) ps) s)
     = printer s @ map (\<lambda>(pid, ptype, tx). (tx @ [0], Some pid, Some ptype)) ps"
  by (simp_all add: reported_def case_prod_unfold comp_def)

section \<open>Round trip and framing\<close>

lemma reception_one_packet:
  assumes "build_packet pid ptype tx = Inr pkt" "running s"
  shows "reception [pkt] rx_init s =
     (Receiving rx_init,
      s\<lparr>responsed_to := responsed_to s @ [Some pid],
        printer := printer s @ [(tx @ [0], Some pid, Some ptype)]\<rparr>)"
proof -
  have "list_all2 (\<lambda>(pid, ptype, tx) pkt. build_packet pid ptype tx = Inr pkt)
          [(pid, ptype, tx)] [pkt]"
    using assms(1) by simp
  from reception_packets[OF this, of "[pkt]" s] build_packet_nonempty[OF assms(1)] assms(2)
  show ?thesis by (simp add: reported_def)
qed

lemma hunter2_packet:
  "build_packet 50 3 (ascii ''hunter2'')
     = Inr [0x11, 0, 0, 0, 0x32, 0, 0, 0, 3, 0, 0, 0,
            0x68, 0x75, 0x6E, 0x74, 0x65, 0x72, 0x32, 0x00, 0x00]"
  by (simp add: build_packet_def ascii_def utf8_encode_cp_def byte_of_def int_to_bytes_def
        numeral_eq_Suc)

text \<open>
  Claim C1, as stated, has the decoded body equal to the encoded one. The packet of
  \<open>encode(50, 3, "hunter2")\<close> is reported with the eight-character body
  \<open>"hunter2\x00"\<close>.
\<close>

theorem roundtrip_body_counterexample:
  "build_packet 50 3 (ascii ''hunter2'')
     = Inr [0x11, 0, 0, 0, 0x32, 0, 0, 0, 3, 0, 0, 0,
            0x68, 0x75, 0x6E, 0x74, 0x65, 0x72, 0x32, 0x00, 0x00]
   \<and> printer (snd (reception [[0x11, 0, 0, 0, 0x32, 0, 0, 0, 3, 0, 0, 0,
                                 0x68, 0x75, 0x6E, 0x74, 0x65, 0x72, 0x32, 0x00, 0x00]]
                       rx_init (init (ascii ''10.0.0.5'') 27020 (ascii ''hunter2'') [])))
       = [(ascii ''hunter2'' @ [0], Some 50, Some 3)]
   \<and> ascii ''hunter2'' @ [0] \<noteq> ascii ''hunter2''"
proof -
  have "running (init (ascii ''10.0.0.5'') 27020 (ascii ''hunter2'') [])"
    by (simp add: init_def)
  from reception_one_packet[OF hunter2_packet this] hunter2_packet
  show ?thesis by (simp add: init_def)
qed

text \<open>
  Claim C1 (amended): for every id and type in unsigned 32-bit range and every body that
  is UTF-8 text of at most \<open>2^32 - 11\<close> encoded bytes, feeding the bytes of
  \<open>__build_packet(id, type, body)\<close> to the receive loop yields exactly one decoded
  packet; its id and type are the encoded ones and its body is the encoded body followed
  by one NUL character.
\<close>

theorem roundtrip:
  assumes "str_encode tx = Inr bs" "int (length bs) + 10 < 2 ^ 32"
    and "0 \<le> pid" "pid < 2 ^ 32" "0 \<le> ptype" "ptype < 2 ^ 32" "running s"
  shows "\<exists>pkt. build_packet pid ptype tx = Inr pkt
           \<and> reception [pkt] rx_init s =
               (Receiving rx_init,
                s\<lparr>responsed_to := responsed_to s @ [Some pid],
                  printer := printer s @ [(tx @ [0], Some pid, Some ptype)]\<rparr>)"
proof -
  obtain pkt where b: "build_packet pid ptype tx = Inr pkt"
    using assms(1-6) by (auto simp: build_packet_Inr)
  from reception_one_packet[OF b assms(7)] b show ?thesis by blast
qed

theorem roundtrip_witness:
  "str_encode [0xE9] = Inr [0xC3, 0xA9] \<and> int (length [0xC3, 0xA9 :: byte]) + 10 < 2 ^ 32
   \<and> (0::int) \<le> 69 \<and> (69::int) < 2 ^ 32 \<and> (0::int) \<le> 0 \<and> (0::int) < 2 ^ 32
   \<and> running (init [] 0 [] [])
   \<and> (\<exists>pkt. build_packet 69 0 [0xE9] = Inr pkt
         \<and> reception [pkt] rx_init (init [] 0 [] []) =
             (Receiving rx_init,
              (init [] 0 [] [])\<lparr>responsed_to := [Some 69],
                                printer := [([0xE9, 0], Some 69, Some 0)]\<rparr>))"
proof -
  have e: "str_encode [0xE9] = Inr [0xC3, 0xA9]"
    by (simp add: utf8_encode_cp_def byte_of_def)
  have r: "running (init [] 0 [] [])" by (simp add: init_def)
  show ?thesis using roundtrip[OF e _ _ _ _ _ r, of 69 0] e r
    by (simp add: init_def del: reception.simps)
qed

text \<open>
  Claim C3: the concatenation of \<open>N\<close> encoded packets, cut into one or more non-empty
  chunks in any way and fed chunk by chunk to the receive loop, yields the same as fed in
  one piece: the \<open>N\<close> packets, in order.
\<close>

theorem fragmentation_coalescing:
  assumes "list_all2 (\<lambda>(pid, ptype, tx) pkt. build_packet pid ptype tx = Inr pkt) ps pkts"
    and "concat bufs = concat pkts" "bufs \<noteq> []" "[] \<notin> set bufs" "running s"
  shows "reception bufs rx_init s = reception [concat pkts] rx_init s
         \<and> reception bufs rx_init s =
             (Receiving rx_init,
              s\<lparr>responsed_to := responsed_to s @ map (\<lambda>(pid, ptype, tx). Some pid) ps,
                printer := printer s
                  @ map (\<lambda>(pid, ptype, tx). (tx @ [0], Some pid, Some ptype)) ps\<rparr>)"
proof -
  have "concat bufs \<noteq> []" using assms(3,4) by (cases bufs) auto
  then have ne: "concat pkts \<noteq> []" using assms(2) by simp
  have whole: "reception [concat pkts] rx_init s =
     (Receiving rx_init, reported (map (\<lambda>(pid, ptype, tx). (pid, ptype, tx @ [0])) ps) s)"
    using ne assms(5) by (intro reception_packets[OF assms(1)]) auto
  have split: "reception bufs rx_init s =
     (Receiving rx_init, reported (map (\<lambda>(pid, ptype, tx). (pid, ptype, tx @ [0])) ps) s)"
    using assms by (intro reception_packets)
  have "reported (map (\<lambda>(pid, ptype, tx). (pid, ptype, tx @ [0])) ps) s =
     s\<lparr>responsed_to := responsed_to s @ map (\<lambda>(pid, ptype, tx). Some pid) ps,
       printer := printer s @ map (\<lambda>(pid, ptype, tx). (tx @ [0], Some pid, Some ptype)) ps\<rparr>"
    by (simp add: reported_def case_prod_unfold comp_def)
  then show ?thesis using whole split by simp
qed

theorem fragmentation_coalescing_witness:
  "list_all2 (\<lambda>(pid, ptype, tx) pkt. build_packet pid ptype tx = Inr pkt)
     [(60, 0, ascii ''ok''), (61, 0, [])]
     [[12, 0, 0, 0, 60, 0, 0, 0, 0, 0, 0, 0, 0x6F, 0x6B, 0, 0],
      [10, 0, 0, 0, 61, 0, 0, 0, 0, 0, 0, 0, 0, 0]]
   \<and> reception [[12, 0, 0], [0, 60, 0, 0, 0, 0, 0, 0, 0, 0x6F, 0x6B, 0, 0, 10, 0, 0, 0, 61],
                 [0, 0, 0, 0, 0, 0, 0, 0, 0]] rx_init (init [] 0 [] [])
       = reception [[12, 0, 0, 0, 60, 0, 0, 0, 0, 0, 0, 0, 0x6F, 0x6B, 0, 0,
                     10, 0, 0, 0, 61, 0, 0, 0, 0, 0, 0, 0, 0, 0]] rx_init (init [] 0 [] [])
   \<and> reception [[12, 0, 0], [0, 60, 0, 0, 0, 0, 0, 0, 0, 0x6F, 0x6B, 0, 0, 10, 0, 0, 0, 61],
                 [0, 0, 0, 0, 0, 0, 0, 0, 0]] rx_init (init [] 0 [] [])
       = (Receiving rx_init,
          (init [] 0 [] [])\<lparr>responsed_to := [Some 60, Some 61],
                            printer := [(ascii ''ok'' @ [0], Some 60, Some 0),
                                        ([0], Some 61, Some 0)]\<rparr>)"
proof -
  have p: "list_all2 (\<lambda>(pid, ptype, tx) pkt. build_packet pid ptype tx = Inr pkt)
     [(60, 0, ascii ''ok''), (61, 0, [])]
     [[12, 0, 0, 0, 60, 0, 0, 0, 0, 0, 0, 0, 0x6F, 0x6B, 0, 0],
      [10, 0, 0, 0, 61, 0, 0, 0, 0, 0, 0, 0, 0, 0]]"
    by (simp add: build_packet_def ascii_def utf8_encode_cp_def byte_of_def int_to_bytes_def
          numeral_eq_Suc)
  have r: "running (init [] 0 [] [])" by (simp add: init_def)
  show ?thesis
    using fragmentation_coalescing[OF p, of
        "[[12, 0, 0], [0, 60, 0, 0, 0, 0, 0, 0, 0, 0x6F, 0x6B, 0, 0, 10, 0, 0, 0, 61],
          [0, 0, 0, 0, 0, 0, 0, 0, 0]]" "init [] 0 [] []"] p r
    by (auto simp add: init_def simp del: reception.simps)
qed

section \<open>The body and the terminator\<close>

text \<open>
  Claim C2, as stated, gives the body state \<open>size - 10\<close> bytes and the terminator state
  two. After the header of a packet of size 11 and one more byte the parser is still in
  state 3 with no body; the second byte, the first terminator, ends the body and is
  decoded with it; the third byte alone completes the packet.
\<close>

theorem body_length_counterexample:
  "rx_bytes [11, 0, 0, 0, 7, 0, 0, 0, 0, 0, 0, 0, 0x61] rx_init (init [] 0 [] [])
     = (Inr \<lparr>state = 3, cur_item = [0x61],
              cur_struct = \<lparr>size' = Some 11, pack_id = Some 7, pack_type = Some 0,
                            body = None\<rparr>\<rparr>, init [] 0 [] [])
   \<and> rx_bytes [11, 0, 0, 0, 7, 0, 0, 0, 0, 0, 0, 0, 0x61, 0x00] rx_init (init [] 0 [] [])
     = (Inr \<lparr>state = 4, cur_item = [],
              cur_struct = \<lparr>size' = Some 11, pack_id = Some 7, pack_type = Some 0,
                            body = Some [0x61, 0]\<rparr>\<rparr>, init [] 0 [] [])
   \<and> rx_bytes [11, 0, 0, 0, 7, 0, 0, 0, 0, 0, 0, 0, 0x61, 0x00, 0x00] rx_init (init [] 0 [] [])
     = (Inr rx_init,
        (init [] 0 [] [])\<lparr>responsed_to := [Some 7], printer := [([0x61, 0], Some 7, Some 0)]\<rparr>)"
  by (simp add: rx_byte_def rx_init_def no_packet_def init_def Let_def utf8_decode_cp_def
        prepend_def set_responded_def print_with_prefix_def)

text \<open>
  Claim C2 (amended): for every packet whose parsed size field is at least 10, the body
  state consumes exactly \<open>size - 9\<close> bytes, the body bytes together with the first
  terminator byte, and decodes them together as the UTF-8 body; the terminator state then
  consumes exactly one byte, whose value it does not look at, reports the completed packet
  and resets to the size state.
\<close>

theorem body_and_terminator:
  assumes "state r = 3" "cur_item r = []" "size' (cur_struct r) = Some sz" "10 \<le> sz"
    and "int (length bd) = sz - 9" "str_decode bd = Inr tx"
  shows "(\<forall>k < length bd. rx_bytes (take k bd) r s = (Inr (r\<lparr>cur_item := take k bd\<rparr>), s))
         \<and> rx_bytes bd r s =
             (Inr (r\<lparr>state := 4, cur_struct := (cur_struct r)\<lparr>body := Some tx\<rparr>,
                     cur_item := []\<rparr>), s)
         \<and> rx_bytes (bd @ [t]) r s =
             (Inr (r\<lparr>state := 0, cur_struct := no_packet, cur_item := []\<rparr>),
              set_responded (pack_id (cur_struct r))
                (print_with_prefix tx (pack_id (cur_struct r)) (pack_type (cur_struct r)) s))"
proof -
  have ne: "bd \<noteq> []" using assms(4,5) by auto
  have a: "\<forall>k < length bd. rx_bytes (take k bd) r s = (Inr (r\<lparr>cur_item := take k bd\<rparr>), s)"
  proof (intro allI impI)
    fix k assume "k < length bd"
    then have "int (length (cur_item r)) + int (length (take k bd)) < sz - 9"
      using assms(2,5) by simp
    from rx_bytes_body_partial[OF assms(1,3) this, of s] show
      "rx_bytes (take k bd) r s = (Inr (r\<lparr>cur_item := take k bd\<rparr>), s)"
      using assms(2) by simp
  qed
  have b: "rx_bytes bd r s =
             (Inr (r\<lparr>state := 4, cur_struct := (cur_struct r)\<lparr>body := Some tx\<rparr>,
                     cur_item := []\<rparr>), s)"
    using rx_bytes_body[OF assms(1,3,2,5) ne, of s] assms(6) by simp
  have c: "rx_bytes (bd @ [t]) r s =
             (Inr (r\<lparr>state := 0, cur_struct := no_packet, cur_item := []\<rparr>),
              set_responded (pack_id (cur_struct r))
                (print_with_prefix tx (pack_id (cur_struct r)) (pack_type (cur_struct r)) s))"
    by (simp add: rx_bytes_append b rx_byte_terminator)
  show ?thesis using a b c by blast
qed

theorem body_and_terminator_witness:
  "rx_bytes [0x6F, 0x6B]
        \<lparr>state = 3, cur_item = [],
         cur_struct = \<lparr>size' = Some 12, pack_id = Some 61, pack_type = Some 0, body = None\<rparr>\<rparr>
        (init [] 0 [] [])
      = (Inr \<lparr>state = 3, cur_item = [0x6F, 0x6B],
              cur_struct = \<lparr>size' = Some 12, pack_id = Some 61, pack_type = Some 0,
                            body = None\<rparr>\<rparr>, init [] 0 [] [])
   \<and> rx_bytes [0x6F, 0x6B, 0x21]
        \<lparr>state = 3, cur_item = [],
         cur_struct = \<lparr>size' = Some 12, pack_id = Some 61, pack_type = Some 0, body = None\<rparr>\<rparr>
        (init [] 0 [] [])
      = (Inr \<lparr>state = 4, cur_item = [],
              cur_struct = \<lparr>size' = Some 12, pack_id = Some 61, pack_type = Some 0,
                            body = Some [0x6F, 0x6B, 0x21]\<rparr>\<rparr>, init [] 0 [] [])
   \<and> rx_bytes [0x6F, 0x6B, 0x21, 0xFF]
        \<lparr>state = 3, cur_item = [],
         cur_struct = \<lparr>size' = Some 12, pack_id = Some 61, pack_type = Some 0, body = None\<rparr>\<rparr>
        (init [] 0 [] [])
      = (Inr rx_init,
         (init [] 0 [] [])\<lparr>responsed_to := [Some 61],
                           printer := [([0x6F, 0x6B, 0x21], Some 61, Some 0)]\<rparr>)"
proof -
  let ?r = "\<lparr>state = 3, cur_item = [],
         cur_struct = \<lparr>size' = Some 12, pack_id = Some 61, pack_type = Some 0, body = None\<rparr>\<rparr>"
  have d: "str_decode [0x6F, 0x6B, 0x21] = Inr [0x6F, 0x6B, 0x21]"
    by (simp add: utf8_decode_cp_def prepend_def)
  have "state ?r = 3" "cur_item ?r = []" "size' (cur_struct ?r) = Some 12" "(10::int) \<le> 12"
    "int (length [0x6F, 0x6B, 0x21 :: byte]) = 12 - 9"
    by simp_all
  note w = body_and_terminator[OF this d, of "init [] 0 [] []" "0xFF"]
  have "rx_bytes (take 2 [0x6F, 0x6B, 0x21]) ?r (init [] 0 [] [])
      = (Inr (?r\<lparr>cur_item := take 2 [0x6F, 0x6B, 0x21]\<rparr>), init [] 0 [] [])"
    using w[THEN conjunct1, rule_format, of 2] by (simp del: rx_bytes.simps)
  then show ?thesis using w[THEN conjunct2]
    by (simp add: rx_init_def set_responded_def print_with_prefix_def init_def
          del: rx_bytes.simps)
qed

section \<open>Decode errors in the receive loop\<close>

subsection \<open>A body that does not decode\<close>

lemma utf8_decode_cp_error: "utf8_decode_cp b bs = Inl e \<Longrightarrow> e = UnicodeDecodeError"
  by (auto simp: utf8_decode_cp_def split: if_splits list.splits)

lemma str_decode_error: "str_decode bs = Inl e \<Longrightarrow> e = UnicodeDecodeError"
proof (induction bs rule: str_decode.induct)
  case 1 then show ?case by simp
next
  case (2 b bs)
  show ?case
  proof (cases "utf8_decode_cp b bs")
    case (Inl e')
    then show ?thesis using 2(2) utf8_decode_cp_error[OF Inl] by simp
  next
    case (Inr ck)
    obtain c k where ck: "ck = (c, k)" by (cases ck)
    show ?thesis using 2(1)[OF Inr ck[symmetric]] 2(2) Inr ck
      by (auto simp: prepend_def split: sum.splits)
  qed
qed

lemma rx_bytes_body_error:
  assumes "state r = 3" "size' (cur_struct r) = Some sz"
    and "int (length (cur_item r)) + int (length bd) = sz - 9" "bd \<noteq> []"
    and "str_decode (cur_item r @ bd) = Inl e"
  shows "rx_bytes (bd @ post) r s = (Inl UnicodeDecodeError, s)"
proof -
  obtain xs b where bd: "bd = xs @ [b]" using assms(4) by (metis rev_exhaust)
  let ?r = "r\<lparr>cur_item := cur_item r @ xs\<rparr>"
  have p: "rx_bytes xs r s = (Inr ?r, s)"
    using assms(3) bd by (intro rx_bytes_body_partial[OF assms(1,2)]) simp
  have e: "e = UnicodeDecodeError" using assms(5) by (rule str_decode_error)
  have "rx_byte b ?r s =
     (case str_decode (cur_item ?r @ [b]) of
        Inl e \<Rightarrow> (Inl e, s)
      | Inr tx \<Rightarrow>
          (Inr (?r\<lparr>state := 4, cur_struct := (cur_struct ?r)\<lparr>body := Some tx\<rparr>, cur_item := []\<rparr>), s))"
    using assms(1,2,3) bd by (intro rx_byte_body_last[of ?r sz b s]) auto
  then have l: "rx_byte b ?r s = (Inl UnicodeDecodeError, s)"
    using assms(5) bd e by simp
  have "rx_bytes (bd @ post) r s = rx_bytes (xs @ b # post) r s" by (simp add: bd)
  also have "\<dots> = rx_bytes (b # post) ?r s"
    by (simp only: rx_bytes_append[of xs] p prod.case sum.case)
  also have "\<dots> = (Inl UnicodeDecodeError, s)" by (simp add: l)
  finally show ?thesis .
qed

text \<open>
  Claim C9, as stated, has a decode error take the path of a zero-length read. On a
  connected session a packet whose body is the byte \<open>0xFF\<close> ends the thread with the
  exception and leaves the session untouched, while a zero-length read closes the socket
  and prints three messages.
\<close>

theorem decode_error_path_counterexample:
  "reception [[11, 0, 0, 0, 7, 0, 0, 0, 0, 0, 0, 0, 0xFF, 0x00, 0x00]] rx_init
     \<lparr>ip = ascii ''10.0.0.5'', port = 27020, password = ascii ''hunter2'',
      sock = Some \<lparr>conn = Connected, wire = [], room = 4096\<rparr>, running = True,
      responsed_to = [], printer = []\<rparr>
     = (Raised UnicodeDecodeError,
        \<lparr>ip = ascii ''10.0.0.5'', port = 27020, password = ascii ''hunter2'',
         sock = Some \<lparr>conn = Connected, wire = [], room = 4096\<rparr>, running = True,
         responsed_to = [], printer = []\<rparr>)
   \<and> reception [[]] rx_init
     \<lparr>ip = ascii ''10.0.0.5'', port = 27020, password = ascii ''hunter2'',
      sock = Some \<lparr>conn = Connected, wire = [], room = 4096\<rparr>, running = True,
      responsed_to = [], printer = []\<rparr>
     = (Returned,
        \<lparr>ip = ascii ''10.0.0.5'', port = 27020, password = ascii ''hunter2'',
         sock = Some \<lparr>conn = Closed, wire = [], room = 4096\<rparr>, running = True,
         responsed_to = [],
         printer = [(ascii ''Disconnected Successfully.'', None, None),
                    (ascii ''Connection closed on other end, stopping reception...'', None, None),
                    (ascii ''Reception thread closed.'', None, None)]\<rparr>)"
  by (simp add: rx_byte_def rx_init_def no_packet_def Let_def utf8_decode_cp_def
        prepend_def peer_closed_def disconnect_def sock_shutdown_def sock_close_def
        print_with_prefix_def)

text \<open>
  Claim C9 (amended): when the receive loop meets a body that is not valid UTF-8, the
  decode error is fatal to that loop and is not silently ignored: the
  \<open>UnicodeDecodeError\<close> leaves the loop uncaught at the byte that completes the body and
  ends the reception thread, whatever bytes and chunks follow. The loop does not take the
  peer-closed path: the session (socket, printer output, responded ids) stays as it was.
\<close>

theorem decode_error_is_fatal:
  assumes "running s" "state r = 3" "size' (cur_struct r) = Some sz"
    and "int (length (cur_item r)) + int (length bd) = sz - 9" "bd \<noteq> []"
    and "str_decode (cur_item r @ bd) = Inl e"
  shows "reception ((bd @ post) # bufs) r s = (Raised UnicodeDecodeError, s)"
  using rx_bytes_body_error[OF assms(2-6), of post s] assms(1,5) by simp

theorem decode_error_is_fatal_witness:
  "reception (([0xC3, 0x28, 0x00] @ [0x00, 10, 0, 0, 0]) # [[61, 0, 0, 0], []])
     \<lparr>state = 3, cur_item = [0x61],
      cur_struct = \<lparr>size' = Some 13, pack_id = Some 60, pack_type = Some 0, body = None\<rparr>\<rparr>
     (init [] 0 [] [])
   = (Raised UnicodeDecodeError, init [] 0 [] [])"
proof -
  let ?r = "\<lparr>state = 3, cur_item = [0x61],
      cur_struct = \<lparr>size' = Some 13, pack_id = Some 60, pack_type = Some 0, body = None\<rparr>\<rparr>"
  have d: "str_decode (cur_item ?r @ [0xC3, 0x28, 0x00]) = Inl UnicodeDecodeError"
    by (simp add: utf8_decode_cp_def prepend_def within_def)
  have "running (init [] 0 [] [])" "state ?r = 3" "size' (cur_struct ?r) = Some 13"
    "int (length (cur_item ?r)) + int (length [0xC3, 0x28, 0x00 :: byte]) = 13 - 9"
    "[0xC3, 0x28, 0x00 :: byte] \<noteq> []"
    by (simp_all add: init_def)
  from decode_error_is_fatal[OF this d, of "[0x00, 10, 0, 0, 0]" "[[61, 0, 0, 0], []]"]
  show ?thesis .
qed

section \<open>Unsigned fields\<close>

subsection \<open>Ids read from the wire\<close>

lemma int_from_bytes_4: "length bs = 4 \<Longrightarrow> 0 \<le> int_from_bytes bs \<and> int_from_bytes bs < 2 ^ 32"
  using int_from_bytes_bounds[of bs] by simp

lemma rx_byte_unsigned:
  assumes "rx_byte b r s = (res, s')"
    and "state r \<in> {2, 3, 4} \<longrightarrow> unsigned32 (pack_id (cur_struct r))"
  shows "(\<exists>ext. responsed_to s' = responsed_to s @ ext \<and> list_all unsigned32 ext)
         \<and> (\<forall>r'. res = Inr r' \<longrightarrow>
               (state r' \<in> {2, 3, 4} \<longrightarrow> unsigned32 (pack_id (cur_struct r'))))"
proof -
  consider "state r = 0 \<and> length (cur_item r) < 4"
    | "\<not> (state r = 0 \<and> length (cur_item r) < 4)" "state r = 1 \<and> length (cur_item r) < 4"
    | "state r = 2 \<and> length (cur_item r) < 4"
    | "\<not> (state r = 2 \<and> length (cur_item r) < 4)" "state r = 3"
    | "state r = 4"
    | "\<not> (state r = 0 \<and> length (cur_item r) < 4)" "\<not> (state r = 1 \<and> length (cur_item r) < 4)"
      "\<not> (state r = 2 \<and> length (cur_item r) < 4)" "state r \<noteq> 3" "state r \<noteq> 4"
    by blast
  then show ?thesis
  proof cases
    case 1
    then show ?thesis using assms by (auto simp: rx_byte_def Let_def split: if_splits)
  next
    case 2
    have "length (cur_item r @ [b]) = 4 \<Longrightarrow> unsigned32 (Some (int_from_bytes (cur_item r @ [b])))"
      using int_from_bytes_4[of "cur_item r @ [b]"] by (simp add: unsigned32_def)
    then show ?thesis using 2 assms by (auto simp: rx_byte_def Let_def split: if_splits)
  next
    case 3
    then show ?thesis using assms by (auto simp: rx_byte_def Let_def split: if_splits)
  next
    case 4
    then show ?thesis using assms
      by (auto simp: rx_byte_def Let_def split: if_splits option.splits sum.splits)
  next
    case 5
    then show ?thesis using assms
      by (auto simp: rx_byte_def set_responded_def print_with_prefix_def)
  next
    case 6
    then show ?thesis using assms by (auto simp: rx_byte_def)
  qed
qed

lemma rx_bytes_unsigned:
  assumes "rx_bytes bs r s = (res, s')"
    and "state r \<in> {2, 3, 4} \<longrightarrow> unsigned32 (pack_id (cur_struct r))"
  shows "(\<exists>ext. responsed_to s' = responsed_to s @ ext \<and> list_all unsigned32 ext)
         \<and> (\<forall>r'. res = Inr r' \<longrightarrow>
               (state r' \<in> {2, 3, 4} \<longrightarrow> unsigned32 (pack_id (cur_struct r'))))"
  using assms
proof (induction bs arbitrary: r s)
  case Nil then show ?case by auto
next
  case (Cons b bs)
  obtain res1 s1 where 1: "rx_byte b r s = (res1, s1)" by (cases "rx_byte b r s")
  note u = rx_byte_unsigned[OF 1 Cons.prems(2)]
  show ?case
  proof (cases res1)
    case (Inl e)
    then show ?thesis using Cons.prems(1) 1 u by auto
  next
    case (Inr r1)
    then have 2: "rx_bytes bs r1 s1 = (res, s')" using Cons.prems(1) 1 by simp
    have i: "state r1 \<in> {2, 3, 4} \<longrightarrow> unsigned32 (pack_id (cur_struct r1))"
      using u Inr by blast
    from Cons.IH[OF 2 i] u show ?thesis by auto
  qed
qed

lemma disconnect_responsed_to: "responsed_to (snd (disconnect s)) = responsed_to s"
  by (simp add: disconnect_def print_with_prefix_def split: option.splits sum.splits)

lemma peer_closed_responsed_to:
  "peer_closed s = (th, s') \<Longrightarrow> responsed_to s' = responsed_to s"
  using disconnect_responsed_to[of s]
  by (auto simp: peer_closed_def print_with_prefix_def split: prod.splits if_splits)

lemma resume_running: "running s \<Longrightarrow> resume bufs r s = reception bufs r s"
  by (cases bufs) (simp_all add: resume_def)

lemma reception_unsigned:
  assumes "reception bufs r s = (th, s')"
    and "state r \<in> {2, 3, 4} \<longrightarrow> unsigned32 (pack_id (cur_struct r))"
  shows "\<exists>ext. responsed_to s' = responsed_to s @ ext \<and> list_all unsigned32 ext"
  using assms
proof (induction bufs arbitrary: r s)
  case Nil
  then show ?case by (auto simp: print_with_prefix_def split: if_splits)
next
  case (Cons buf bufs)
  show ?case
  proof (cases "\<not> running s \<or> buf = []")
    case True
    then show ?thesis using Cons.prems(1)
      by (auto simp: print_with_prefix_def split: if_splits dest: peer_closed_responsed_to)
  next
    case False
    obtain res1 s1 where 1: "rx_bytes buf r s = (res1, s1)" by (cases "rx_bytes buf r s")
    note u = rx_bytes_unsigned[OF 1 Cons.prems(2)]
    show ?thesis
    proof (cases res1)
      case (Inl e)
      then show ?thesis using Cons.prems(1) False 1 u by auto
    next
      case (Inr r1)
      then have 2: "reception bufs r1 s1 = (th, s')" using Cons.prems(1) False 1 by simp
      have i: "state r1 \<in> {2, 3, 4} \<longrightarrow> unsigned32 (pack_id (cur_struct r1))"
        using u Inr by blast
      from Cons.IH[OF 2 i] u show ?thesis by auto
    qed
  qed
qed

lemma build_packet_overflow:
  assumes "str_encode tx = Inr bs"
  shows "build_packet pid ptype tx = Inl OverflowError \<longleftrightarrow>
           (pid < 0 \<or> 2 ^ 32 \<le> pid \<or> ptype < 0 \<or> 2 ^ 32 \<le> ptype
            \<or> 2 ^ 32 \<le> int (length bs) + 10)"
  using assms by (auto simp: build_packet_def Let_def int_to_bytes_def)

lemma build_packet_raises:
  assumes "pid < 0 \<or> 2 ^ 32 \<le> pid \<or> ptype < 0 \<or> 2 ^ 32 \<le> ptype"
  shows "\<exists>e. build_packet pid ptype tx = Inl e"
  using assms by (auto simp: build_packet_def Let_def int_to_bytes_def split: sum.splits)

lemma rx_bytes_header_le:
  "rx_bytes ([a1, b1, c1, d1] @ [a2, b2, c2, d2] @ [a3, b3, c3, d3]) rx_init s =
     (Inr \<lparr>state = 3, cur_item = [],
           cur_struct =
             \<lparr>size' = Some (uint a1 + 256 * uint b1 + 65536 * uint c1 + 16777216 * uint d1),
              pack_id = Some (uint a2 + 256 * uint b2 + 65536 * uint c2 + 16777216 * uint d2),
              pack_type = Some (uint a3 + 256 * uint b3 + 65536 * uint c3 + 16777216 * uint d3),
              body = None\<rparr>\<rparr>, s)"
  using rx_bytes_header[of "[a1, b1, c1, d1]" "[a2, b2, c2, d2]" "[a3, b3, c3, d3]" s]
  by (simp del: rx_bytes.simps)

lemma minus_one_frame:
  "reception [[10, 0, 0, 0, 0xFF, 0xFF, 0xFF, 0xFF, 2, 0, 0, 0, 0x00, 0x00]] rx_init
     (init [] 0 [] [])
   = (Receiving rx_init,
      (init [] 0 [] [])\<lparr>responsed_to := [Some 4294967295],
                        printer := [([0], Some 4294967295, Some 2)]\<rparr>)"
  by (simp add: rx_byte_def rx_init_def no_packet_def init_def Let_def utf8_decode_cp_def
        prepend_def set_responded_def print_with_prefix_def)

lemma utf8_encode_cp_error: "utf8_encode_cp c = Inl e \<Longrightarrow> e = UnicodeEncodeError"
  by (auto simp: utf8_encode_cp_def split: if_splits)

lemma str_encode_error: "str_encode cs = Inl e \<Longrightarrow> e = UnicodeEncodeError"
proof (induction cs)
  case Nil
  then show ?case by simp
next
  case (Cons c cs)
  then show ?case
    by (auto split: sum.splits dest: utf8_encode_cp_error)
qed

lemma build_packet_encode_error:
  "str_encode cs = Inl e \<Longrightarrow> build_packet pid ptype cs = Inl UnicodeEncodeError"
  using str_encode_error[of cs e] by (simp add: build_packet_def)

text \<open>
  Claim C10, as stated, has \<open>__build_packet\<close> raise \<open>OverflowError\<close> for any id out
  of range. The body is encoded before the integers are converted: with the id \<open>-1\<close> and
  a body that is the lone surrogate \<open>U+D800\<close> the exception is \<open>UnicodeEncodeError\<close>.
\<close>

theorem overflow_error_counterexample:
  "(- 1 :: int) < 0
   \<and> build_packet (- 1) 2 [0xD800] = Inl UnicodeEncodeError
   \<and> build_packet (- 1) 2 [0xD800] \<noteq> Inl OverflowError"
  by (simp add: build_packet_def utf8_encode_cp_def)

text \<open>
  Claim C10 (amended): for a body that encodes as UTF-8, \<open>__build_packet\<close> raises
  \<open>OverflowError\<close> exactly when the id, the type or the computed size is negative or at
  least \<open>2^32\<close>; with an id or type out of range it raises whatever the body, and a
  body that does not encode raises \<open>UnicodeEncodeError\<close> whatever the integers. The
  parser reads the size, id and type fields as unsigned little-endian integers, so every
  id the receive loop records is an unsigned 32-bit value; the wire id \<open>FF FF FF FF\<close>
  is recorded as \<open>2^32 - 1\<close>.
\<close>

theorem unsigned_fields:
  assumes "str_encode tx = Inr bs" "reception bufs rx_init s = (th, s')"
  shows "(build_packet pid ptype tx = Inl OverflowError \<longleftrightarrow>
            (pid < 0 \<or> 2 ^ 32 \<le> pid \<or> ptype < 0 \<or> 2 ^ 32 \<le> ptype
             \<or> 2 ^ 32 \<le> int (length bs) + 10))
         \<and> ((pid < 0 \<or> 2 ^ 32 \<le> pid \<or> ptype < 0 \<or> 2 ^ 32 \<le> ptype)
              \<longrightarrow> (\<exists>e. build_packet pid ptype any = Inl e))
         \<and> (str_encode any = Inl err \<longrightarrow> build_packet pid ptype any = Inl UnicodeEncodeError)
         \<and> rx_bytes ([a1, b1, c1, d1] @ [a2, b2, c2, d2] @ [a3, b3, c3, d3]) rx_init s =
             (Inr \<lparr>state = 3, cur_item = [],
                   cur_struct =
                     \<lparr>size' = Some (uint a1 + 256 * uint b1 + 65536 * uint c1 + 16777216 * uint d1),
                      pack_id = Some (uint a2 + 256 * uint b2 + 65536 * uint c2 + 16777216 * uint d2),
                      pack_type = Some (uint a3 + 256 * uint b3 + 65536 * uint c3 + 16777216 * uint d3),
                      body = None\<rparr>\<rparr>, s)
         \<and> (\<exists>ext. responsed_to s' = responsed_to s @ ext \<and> list_all unsigned32 ext)
         \<and> reception [[10, 0, 0, 0, 0xFF, 0xFF, 0xFF, 0xFF, 2, 0, 0, 0, 0x00, 0x00]] rx_init
               (init [] 0 [] [])
             = (Receiving rx_init,
                (init [] 0 [] [])\<lparr>responsed_to := [Some 4294967295],
                                  printer := [([0], Some 4294967295, Some 2)]\<rparr>)"
proof -
  have "\<exists>ext. responsed_to s' = responsed_to s @ ext \<and> list_all unsigned32 ext"
    using assms(2) by (rule reception_unsigned) (simp add: rx_init_def)
  then show ?thesis
    using build_packet_overflow[OF assms(1), of pid ptype] build_packet_raises[of pid ptype any]
      build_packet_encode_error[of any err pid ptype]
      rx_bytes_header_le[of a1 b1 c1 d1 a2 b2 c2 d2 a3 b3 c3 d3 s] minus_one_frame
    by blast
qed

theorem unsigned_fields_witness:
  "str_encode [] = Inr []
   \<and> reception [[10, 0, 0, 0, 0xFF, 0xFF, 0xFF, 0xFF, 2, 0, 0, 0, 0x00, 0x00]] rx_init
        (init [] 0 [] [])
      = (Receiving rx_init,
         (init [] 0 [] [])\<lparr>responsed_to := [Some 4294967295],
                           printer := [([0], Some 4294967295, Some 2)]\<rparr>)
   \<and> build_packet (- 1) 2 [] = Inl OverflowError
   \<and> list_all unsigned32 [Some 4294967295]"
proof -
  have e: "str_encode [] = Inr []" by simp
  have r: "reception [[10, 0, 0, 0, 0xFF, 0xFF, 0xFF, 0xFF, 2, 0, 0, 0, 0x00, 0x00]] rx_init
        (init [] 0 [] [])
      = (Receiving rx_init,
         (init [] 0 [] [])\<lparr>responsed_to := [Some 4294967295],
                           printer := [([0], Some 4294967295, Some 2)]\<rparr>)"
    by (simp add: rx_byte_def rx_init_def no_packet_def init_def Let_def utf8_decode_cp_def
        prepend_def set_responded_def print_with_prefix_def)
  note w = unsigned_fields[OF e r, of "- 1" 2]
  have "build_packet (- 1) 2 [] = Inl OverflowError" using w by simp
  moreover have "list_all unsigned32 [Some 4294967295]"
    using w by (auto simp: init_def)
  ultimately show ?thesis using e r by blast
qed

section \<open>Disconnecting\<close>




section \<open>Sending a command\<close>

lemma send_cmd_cases:
  "send_cmd pid content s =
     (case sock s of
        None \<Rightarrow> (Inl AttributeError, s)
      | Some sk \<Rightarrow>
          (case build_packet pid 2 content of
             Inl e \<Rightarrow> (Inl e, s)
           | Inr pkt \<Rightarrow>
               if conn sk = Connected
               then (Inr (),
                     s\<lparr>sock := Some (sk\<lparr>wire := wire sk @ take (min (length pkt) (room sk)) pkt\<rparr>),
                       printer := printer s
                         @ [(ascii ''Sent command '' @ [39] @ content @ [39], None, None)]\<rparr>)
               else (Inl OSError, s)))"
  by (simp add: send_cmd_def sock_send_def SERVERDATA_EXECCOMMAND_def print_with_prefix_def
        Let_def split: option.splits sum.splits)

lemma send_cmd_not_connected:
  "sock s = Some sk \<Longrightarrow> conn sk \<noteq> Connected \<Longrightarrow> build_packet pid 2 content = Inr pkt
   \<Longrightarrow> send_cmd pid content s = (Inl OSError, s)"
  by (simp add: send_cmd_cases)

text \<open>
  Claim C5 on the code: a connected socket that takes only five bytes in one \<open>send\<close> call
  gets the first five of the 23 bytes of the \<open>saveworld\<close> packet; \<open>send_cmd\<close> returns
  normally and prints that the command was sent.
\<close>

theorem send_cmd_partial_send:
  "build_packet 60 SERVERDATA_EXECCOMMAND (ascii ''saveworld'')
     = Inr [19, 0, 0, 0, 60, 0, 0, 0, 2, 0, 0, 0,
            0x73, 0x61, 0x76, 0x65, 0x77, 0x6F, 0x72, 0x6C, 0x64, 0x00, 0x00]
   \<and> send_cmd 60 (ascii ''saveworld'')
       \<lparr>ip = ascii ''10.0.0.5'', port = 27020, password = ascii ''hunter2'',
        sock = Some \<lparr>conn = Connected, wire = [], room = 5\<rparr>, running = True,
        responsed_to = [Some 50], printer = []\<rparr>
     = (Inr (),
        \<lparr>ip = ascii ''10.0.0.5'', port = 27020, password = ascii ''hunter2'',
         sock = Some \<lparr>conn = Connected, wire = [19, 0, 0, 0, 60], room = 5\<rparr>, running = True,
         responsed_to = [Some 50],
         printer = [(ascii ''Sent command '' @ [39] @ ascii ''saveworld'' @ [39], None, None)]\<rparr>)"
proof -
  have b: "build_packet 60 2 (ascii ''saveworld'')
     = Inr [19, 0, 0, 0, 60, 0, 0, 0, 2, 0, 0, 0,
            0x73, 0x61, 0x76, 0x65, 0x77, 0x6F, 0x72, 0x6C, 0x64, 0x00, 0x00]"
    by (simp add: build_packet_def ascii_def utf8_encode_cp_def byte_of_def int_to_bytes_def
          numeral_eq_Suc)
  show ?thesis
    by (simp add: send_cmd_cases b SERVERDATA_EXECCOMMAND_def)
qed

section \<open>The responded ids\<close>

lemma rx_byte_append_only:
  "rx_byte b r s = (res, s') \<Longrightarrow> \<exists>ext. responsed_to s' = responsed_to s @ ext"
  by (auto simp: rx_byte_def Let_def set_responded_def print_with_prefix_def
           split: if_splits option.splits sum.splits)

lemma rx_bytes_append_only:
  "rx_bytes bs r s = (res, s') \<Longrightarrow> \<exists>ext. responsed_to s' = responsed_to s @ ext"
proof (induction bs arbitrary: r s)
  case Nil then show ?case by simp
next
  case (Cons b bs)
  obtain res1 s1 where 1: "rx_byte b r s = (res1, s1)" by (cases "rx_byte b r s")
  from rx_byte_append_only[OF 1] obtain e1 where e1: "responsed_to s1 = responsed_to s @ e1" ..
  show ?case
  proof (cases res1)
    case (Inl e)
    then show ?thesis using Cons.prems 1 e1 by simp
  next
    case (Inr r1)
    then have "rx_bytes bs r1 s1 = (res, s')" using Cons.prems 1 by simp
    from Cons.IH[OF this] e1 show ?thesis by auto
  qed
qed

lemma reception_append_only:
  "reception bufs r s = (th, s') \<Longrightarrow> \<exists>ext. responsed_to s' = responsed_to s @ ext"
proof (induction bufs arbitrary: r s)
  case Nil
  then show ?case by (auto simp: print_with_prefix_def split: if_splits)
next
  case (Cons buf bufs)
  show ?case
  proof (cases "\<not> running s \<or> buf = []")
    case True
    then show ?thesis using Cons.prems
      by (auto simp: print_with_prefix_def split: if_splits dest: peer_closed_responsed_to)
  next
    case False
    obtain res1 s1 where 1: "rx_bytes buf r s = (res1, s1)" by (cases "rx_bytes buf r s")
    from rx_bytes_append_only[OF 1] obtain e1 where e1: "responsed_to s1 = responsed_to s @ e1" ..
    show ?thesis
    proof (cases res1)
      case (Inl e)
      then show ?thesis using Cons.prems False 1 e1 by auto
    next
      case (Inr r1)
      then have "reception bufs r1 s1 = (th, s')" using Cons.prems False 1 by simp
      from Cons.IH[OF this] e1 show ?thesis by auto
    qed
  qed
qed

lemma resume_append_only:
  assumes "resume bufs r s = (th, s')"
  shows "\<exists>ext. responsed_to s' = responsed_to s @ ext"
proof (cases bufs)
  case Nil
  then show ?thesis using assms by (simp add: resume_def)
next
  case (Cons buf rest)
  show ?thesis
  proof (cases "buf = []")
    case True
    then show ?thesis using assms Cons by (auto simp: resume_def dest: peer_closed_responsed_to)
  next
    case False
    obtain res1 s1 where 1: "rx_bytes buf r s = (res1, s1)" by (cases "rx_bytes buf r s")
    from rx_bytes_append_only[OF 1] obtain e1 where e1: "responsed_to s1 = responsed_to s @ e1" ..
    show ?thesis
    proof (cases res1)
      case (Inl e)
      then show ?thesis using assms Cons False 1 e1 by (auto simp: resume_def)
    next
      case (Inr r1)
      then have "reception rest r1 s1 = (th, s')" using assms Cons False 1 by (simp add: resume_def)
      from reception_append_only[OF this] e1 show ?thesis by auto
    qed
  qed
qed

lemma thread_run_append_only:
  "thread_run bufs (t, s) = (t', s') \<Longrightarrow> \<exists>ext. responsed_to s' = responsed_to s @ ext"
  by (cases t) (auto simp: thread_run_def dest: reception_append_only resume_append_only)

lemma send_cmd_frame:
  "responsed_to (snd (send_cmd pid content s)) = responsed_to s"
  "running (snd (send_cmd pid content s)) = running s"
  by (simp_all add: send_cmd_cases split: option.splits sum.splits)

lemma connect_open_responsed_to:
  "connect_open reachable rm s = (res, th, s') \<Longrightarrow> responsed_to s' = responsed_to s"
  by (auto simp: connect_open_def Let_def print_with_prefix_def
           split: if_splits sum.splits prod.splits)

lemma step_append_only:
  "step c (ths, s) = (ths', s') \<Longrightarrow> \<exists>ext. responsed_to s' = responsed_to s @ ext"
proof (cases c)
  case (Connect_open reachable rm)
  assume a: "step c (ths, s) = (ths', s')"
  obtain res th s1 where o: "connect_open reachable rm s = (res, th, s1)"
    by (cases "connect_open reachable rm s") auto
  then have "s' = s1" using a Connect_open by (auto split: option.splits)
  then show ?thesis using connect_open_responsed_to[OF o] by simp
next
  case (Send_cmd pid content)
  assume "step c (ths, s) = (ths', s')"
  then show ?thesis using Send_cmd send_cmd_frame(1)[of pid content s] by auto
next
  case Disconnect
  assume "step c (ths, s) = (ths', s')"
  then show ?thesis using Disconnect disconnect_responsed_to[of s] by auto
next
  case (Set_running val)
  assume "step c (ths, s) = (ths', s')"
  then show ?thesis using Set_running by (auto simp: set_running_def)
next
  case Is_running
  assume "step c (ths, s) = (ths', s')"
  then show ?thesis using Is_running by auto
next
  case (Is_responded pid)
  assume "step c (ths, s) = (ths', s')"
  then show ?thesis using Is_responded by auto
next
  case (Recv i bufs)
  assume a: "step c (ths, s) = (ths', s')"
  show ?thesis
  proof (cases "i < length ths")
    case True
    obtain t1 s1 where o: "thread_run bufs (ths ! i, s) = (t1, s1)"
      by (cases "thread_run bufs (ths ! i, s)")
    then have "s' = s1" using a Recv True by simp
    then show ?thesis using thread_run_append_only[OF o] by simp
  next
    case False
    then show ?thesis using a Recv by simp
  qed
qed

lemma run_append_only:
  "run calls (ths, s) = (ths', s') \<Longrightarrow> \<exists>ext. responsed_to s' = responsed_to s @ ext"
proof (induction calls arbitrary: ths s)
  case Nil then show ?case by simp
next
  case (Cons c calls)
  obtain ths1 s1 where 1: "step c (ths, s) = (ths1, s1)" by (cases "step c (ths, s)")
  from step_append_only[OF 1] obtain e1 where e1: "responsed_to s1 = responsed_to s @ e1" ..
  have "run calls (ths1, s1) = (ths', s')" using Cons.prems 1 by simp
  from Cons.IH[OF this] e1 show ?case by auto
qed

lemma two_responses:
  assumes "build_packet p1 t1 b1 = Inr k1" "build_packet p2 t2 b2 = Inr k2"
    and "i < length ths" "ths ! i = Receiving rx_init" "running s"
    and "concat bufs = k1 @ k2" "[] \<notin> set bufs"
  shows "responsed_to (snd (run [Send_cmd q1 c1, Send_cmd q2 c2, Recv i bufs] (ths, s)))
           = responsed_to s @ [Some p1, Some p2]"
proof -
  let ?s2 = "snd (send_cmd q2 c2 (snd (send_cmd q1 c1 s)))"
  have r: "running ?s2" using assms(5) by (simp add: send_cmd_frame)
  have rt: "responsed_to ?s2 = responsed_to s" by (simp add: send_cmd_frame)
  have l: "list_all2 (\<lambda>(pid, ptype, tx) pkt. build_packet pid ptype tx = Inr pkt)
             [(p1, t1, b1), (p2, t2, b2)] [k1, k2]"
    using assms(1,2) by simp
  have "reception bufs rx_init ?s2 =
          (Receiving rx_init,
           reported (map (\<lambda>(pid, ptype, tx). (pid, ptype, tx @ [0])) [(p1, t1, b1), (p2, t2, b2)]) ?s2)"
    using assms(6,7) r by (intro reception_packets[OF l]) auto
  then show ?thesis using assms(3,4) rt
    by (simp add: thread_run_def resume_running[OF r] reported_def del: reception.simps)
qed

text \<open>
  Claim C7: no call on the session removes an entry of the responded ids: whatever calls
  are made, by the caller or by the reception threads, the list only grows at its end, so
  an id that \<open>is_responded\<close> has found is found ever after. After two \<open>send_cmd\<close> calls
  with the ids 60 and 61 and the server's two responses, in either order and however the
  transport cuts them, \<open>is_responded(60)\<close> and \<open>is_responded(61)\<close> both hold.
\<close>

theorem responded_ids_append_only:
  "(\<exists>ext. responsed_to (snd (run calls (ths, s))) = responsed_to s @ ext)
   \<and> (is_responded pid s \<longrightarrow> is_responded pid (snd (run calls (ths, s))))
   \<and> (build_packet 60 t1 b1 = Inr k1 \<and> build_packet 61 t2 b2 = Inr k2
        \<and> i < length ths \<and> ths ! i = Receiving rx_init \<and> running s
        \<and> (concat bufs = k1 @ k2 \<or> concat bufs = k2 @ k1) \<and> [] \<notin> set bufs
      \<longrightarrow> is_responded 60 (snd (run [Send_cmd 60 c1, Send_cmd 61 c2, Recv i bufs] (ths, s)))
          \<and> is_responded 61 (snd (run [Send_cmd 60 c1, Send_cmd 61 c2, Recv i bufs] (ths, s))))"
proof -
  obtain ths' s' where r: "run calls (ths, s) = (ths', s')" by (cases "run calls (ths, s)")
  from run_append_only[OF r] obtain ext where e: "responsed_to s' = responsed_to s @ ext" ..
  have a: "\<exists>ext. responsed_to (snd (run calls (ths, s))) = responsed_to s @ ext"
    using r e by auto
  have b: "is_responded pid s \<longrightarrow> is_responded pid (snd (run calls (ths, s)))"
    using r e by (auto simp: is_responded_def)
  have c: "is_responded 60 (snd (run [Send_cmd 60 c1, Send_cmd 61 c2, Recv i bufs] (ths, s)))
          \<and> is_responded 61 (snd (run [Send_cmd 60 c1, Send_cmd 61 c2, Recv i bufs] (ths, s)))"
    if h: "build_packet 60 t1 b1 = Inr k1" "build_packet 61 t2 b2 = Inr k2"
      "i < length ths" "ths ! i = Receiving rx_init" "running s"
      "concat bufs = k1 @ k2 \<or> concat bufs = k2 @ k1" "[] \<notin> set bufs"
  proof -
    from h(6) show ?thesis
    proof
      assume "concat bufs = k1 @ k2"
      from two_responses[OF h(1,2,3,4,5) this h(7), of 60 c1 61 c2]
      show ?thesis by (simp add: is_responded_def del: run.simps)
    next
      assume "concat bufs = k2 @ k1"
      from two_responses[OF h(2,1,3,4,5) this h(7), of 60 c1 61 c2]
      show ?thesis by (simp add: is_responded_def del: run.simps)
    qed
  qed
  show ?thesis using a b c by blast
qed

theorem responded_ids_append_only_witness:
  "is_responded 60
     (snd (run [Send_cmd 60 (ascii ''saveworld''), Send_cmd 61 (ascii ''doexit''),
                Recv 0 [[10, 0, 0, 0, 61, 0, 0], [0, 0, 0, 0, 0, 0, 0, 12, 0, 0, 0, 60, 0, 0, 0],
                        [0, 0, 0, 0, 0x6F, 0x6B, 0, 0]]]
            ([Receiving rx_init],
             \<lparr>ip = [], port = 0, password = [],
              sock = Some \<lparr>conn = Connected, wire = [], room = 4096\<rparr>, running = True,
              responsed_to = [Some 50], printer = []\<rparr>)))
   \<and> is_responded 61
     (snd (run [Send_cmd 60 (ascii ''saveworld''), Send_cmd 61 (ascii ''doexit''),
                Recv 0 [[10, 0, 0, 0, 61, 0, 0], [0, 0, 0, 0, 0, 0, 0, 12, 0, 0, 0, 60, 0, 0, 0],
                        [0, 0, 0, 0, 0x6F, 0x6B, 0, 0]]]
            ([Receiving rx_init],
             \<lparr>ip = [], port = 0, password = [],
              sock = Some \<lparr>conn = Connected, wire = [], room = 4096\<rparr>, running = True,
              responsed_to = [Some 50], printer = []\<rparr>)))
   \<and> is_responded 50
     (snd (run [Disconnect, Set_running False, Recv 0 [[]], Connect_open True 4096]
            ([Receiving rx_init],
             \<lparr>ip = [], port = 0, password = [],
              sock = Some \<lparr>conn = Connected, wire = [], room = 4096\<rparr>, running = True,
              responsed_to = [Some 50], printer = []\<rparr>)))"
proof -
  let ?s = "\<lparr>ip = [], port = 0, password = [],
              sock = Some \<lparr>conn = Connected, wire = [], room = 4096\<rparr>, running = True,
              responsed_to = [Some 50], printer = []\<rparr>"
  let ?bufs = "[[10, 0, 0, 0, 61, 0, 0], [0, 0, 0, 0, 0, 0, 0, 12, 0, 0, 0, 60, 0, 0, 0],
                [0, 0, 0, 0, 0x6F, 0x6B, 0, 0 :: byte]]"
  have b1: "build_packet 60 0 (ascii ''ok'')
              = Inr [12, 0, 0, 0, 60, 0, 0, 0, 0, 0, 0, 0, 0x6F, 0x6B, 0, 0]"
    by (simp add: build_packet_def ascii_def utf8_encode_cp_def byte_of_def int_to_bytes_def
          numeral_eq_Suc)
  have b2: "build_packet 61 0 [] = Inr [10, 0, 0, 0, 61, 0, 0, 0, 0, 0, 0, 0, 0, 0]"
    by (simp add: build_packet_def int_to_bytes_def numeral_eq_Suc)
  have h: "(0::nat) < length [Receiving rx_init]" "[Receiving rx_init] ! 0 = Receiving rx_init"
    "running ?s"
    "concat ?bufs = [12, 0, 0, 0, 60, 0, 0, 0, 0, 0, 0, 0, 0x6F, 0x6B, 0, 0]
                      @ [10, 0, 0, 0, 61, 0, 0, 0, 0, 0, 0, 0, 0, 0]
     \<or> concat ?bufs = [10, 0, 0, 0, 61, 0, 0, 0, 0, 0, 0, 0, 0, 0]
                      @ [12, 0, 0, 0, 60, 0, 0, 0, 0, 0, 0, 0, 0x6F, 0x6B, 0, 0]"
    "[] \<notin> set ?bufs"
    by simp_all
  have p: "is_responded 50 ?s" by (simp add: is_responded_def)
  note w1 = responded_ids_append_only[of "[]" "[Receiving rx_init]" ?s 50 0 "ascii ''ok''"
      "[12, 0, 0, 0, 60, 0, 0, 0, 0, 0, 0, 0, 0x6F, 0x6B, 0, 0]" 0 "[]"
      "[10, 0, 0, 0, 61, 0, 0, 0, 0, 0, 0, 0, 0, 0]" 0 ?bufs
      "ascii ''saveworld''" "ascii ''doexit''"]
  note w2 = responded_ids_append_only[of
      "[Disconnect, Set_running False, Recv 0 [[]], Connect_open True 4096]"
      "[Receiving rx_init]" ?s 50]
  from w1 b1 b2 h have a: "is_responded 60
     (snd (run [Send_cmd 60 (ascii ''saveworld''), Send_cmd 61 (ascii ''doexit''), Recv 0 ?bufs]
            ([Receiving rx_init], ?s)))
   \<and> is_responded 61
     (snd (run [Send_cmd 60 (ascii ''saveworld''), Send_cmd 61 (ascii ''doexit''), Recv 0 ?bufs]
            ([Receiving rx_init], ?s)))"
    by blast
  from w2 p have c: "is_responded 50
     (snd (run [Disconnect, Set_running False, Recv 0 [[]], Connect_open True 4096]
            ([Receiving rx_init], ?s)))"
    by blast
  show ?thesis using a c by blast
qed

section \<open>Waiting for the authentication response\<close>

subsection \<open>The waiting loop\<close>

lemma at_poll_shift:
  "at_poll (\<lambda>j. feed (k + j)) (Suc n) ts
     = at_poll (\<lambda>j. feed (Suc k + j)) n (thread_run (feed k) ts)"
  by (induction n) simp_all

lemma auth_wait_Some:
  assumes "auth_wait feed k ts naps = Some y"
  shows "\<exists>n. y = (k + n, at_poll (\<lambda>j. feed (k + j)) n ts, naps @ replicate n 200)
           \<and> is_responded 50 (snd (at_poll (\<lambda>j. feed (k + j)) n ts))
           \<and> (\<forall>j<n. \<not> is_responded 50 (snd (at_poll (\<lambda>j. feed (k + j)) j ts)))"
proof (rule auth_wait.raw_induct[where P = "\<lambda>feed k ts naps y.
         \<exists>n. y = (k + n, at_poll (\<lambda>j. feed (k + j)) n ts, naps @ replicate n 200)
           \<and> is_responded 50 (snd (at_poll (\<lambda>j. feed (k + j)) n ts))
           \<and> (\<forall>j<n. \<not> is_responded 50 (snd (at_poll (\<lambda>j. feed (k + j)) j ts)))",
       OF _ assms])
  fix aw :: "(nat \<Rightarrow> byte list list) \<Rightarrow> nat \<Rightarrow> thread \<times> session \<Rightarrow> nat list
               \<Rightarrow> (nat \<times> (thread \<times> session) \<times> nat list) option"
  fix feed k ts naps y
  assume 1: "\<And>feed k ts naps y. aw feed k ts naps = Some y \<Longrightarrow>
         \<exists>n. y = (k + n, at_poll (\<lambda>j. feed (k + j)) n ts, naps @ replicate n 200)
           \<and> is_responded 50 (snd (at_poll (\<lambda>j. feed (k + j)) n ts))
           \<and> (\<forall>j<n. \<not> is_responded 50 (snd (at_poll (\<lambda>j. feed (k + j)) j ts)))"
    "(if is_responded 50 (snd ts) then Some (k, ts, naps)
      else aw feed (Suc k) (thread_run (feed k) ts) (naps @ [200])) = Some y"
  show "\<exists>n. y = (k + n, at_poll (\<lambda>j. feed (k + j)) n ts, naps @ replicate n 200)
           \<and> is_responded 50 (snd (at_poll (\<lambda>j. feed (k + j)) n ts))
           \<and> (\<forall>j<n. \<not> is_responded 50 (snd (at_poll (\<lambda>j. feed (k + j)) j ts)))"
  proof (cases "is_responded 50 (snd ts)")
    case True
    then have "y = (k, ts, naps)" using 1(2) by simp
    then have "y = (k + 0, at_poll (\<lambda>j. feed (k + j)) 0 ts, naps @ replicate 0 200)
           \<and> is_responded 50 (snd (at_poll (\<lambda>j. feed (k + j)) 0 ts))
           \<and> (\<forall>j<0. \<not> is_responded 50 (snd (at_poll (\<lambda>j. feed (k + j)) j ts)))"
      using True by simp
    then show ?thesis by (rule exI)
  next
    case False
    let ?ts = "thread_run (feed k) ts"
    have "aw feed (Suc k) ?ts (naps @ [200]) = Some y"
      using 1(2) False by simp
    from 1(1)[OF this] obtain n where
      n: "y = (Suc k + n, at_poll (\<lambda>j. feed (Suc k + j)) n ?ts,
               (naps @ [200]) @ replicate n 200)"
         "is_responded 50 (snd (at_poll (\<lambda>j. feed (Suc k + j)) n ?ts))"
         "\<forall>j<n. \<not> is_responded 50 (snd (at_poll (\<lambda>j. feed (Suc k + j)) j ?ts))"
      by blast
    have sh: "\<And>m. at_poll (\<lambda>j. feed (Suc k + j)) m ?ts = at_poll (\<lambda>j. feed (k + j)) (Suc m) ts"
      by (rule at_poll_shift[symmetric])
    have r: "(naps @ [200]) @ replicate n 200 = naps @ replicate (Suc n) (200::nat)"
      by (simp add: replicate_append_same)
    have a: "y = (k + Suc n, at_poll (\<lambda>j. feed (k + j)) (Suc n) ts, naps @ replicate (Suc n) 200)"
      unfolding n(1) sh r by simp
    have b: "is_responded 50 (snd (at_poll (\<lambda>j. feed (k + j)) (Suc n) ts))"
      using n(2) unfolding sh .
    have c: "\<forall>j<Suc n. \<not> is_responded 50 (snd (at_poll (\<lambda>j. feed (k + j)) j ts))"
    proof (intro allI impI)
      fix j assume j: "j < Suc n"
      show "\<not> is_responded 50 (snd (at_poll (\<lambda>j. feed (k + j)) j ts))"
      proof (cases j)
        case 0
        then show ?thesis using False by simp
      next
        case (Suc i)
        then have "i < n" using j by simp
        then have "\<not> is_responded 50 (snd (at_poll (\<lambda>j. feed (Suc k + j)) i ?ts))"
          using n(3) by blast
        then show ?thesis unfolding sh Suc .
      qed
    qed
    from a b c show ?thesis by (intro exI[of _ "Suc n"] conjI)
  qed
qed

lemma auth_wait_returns:
  "is_responded 50 (snd (at_poll (\<lambda>j. feed (k + j)) n ts))
   \<Longrightarrow> \<exists>y. auth_wait feed k ts naps = Some y"
proof (induction n arbitrary: k ts naps)
  case 0
  then have "auth_wait feed k ts naps = Some (k, ts, naps)"
    by (subst auth_wait.simps) simp
  then show ?case ..
next
  case (Suc n)
  show ?case
  proof (cases "is_responded 50 (snd ts)")
    case True
    then have "auth_wait feed k ts naps = Some (k, ts, naps)"
      by (subst auth_wait.simps) simp
    then show ?thesis ..
  next
    case False
    have "is_responded 50 (snd (at_poll (\<lambda>j. feed (Suc k + j)) n (thread_run (feed k) ts)))"
      using Suc.prems unfolding at_poll_shift[of feed k n ts] .
    from Suc.IH[OF this, of "naps @ [200]"] obtain y where
      y: "auth_wait feed (Suc k) (thread_run (feed k) ts) (naps @ [200]) = Some y" ..
    have "auth_wait feed k ts naps
            = auth_wait feed (Suc k) (thread_run (feed k) ts) (naps @ [200])"
      using False by (subst auth_wait.simps) simp
    then have "auth_wait feed k ts naps = Some y" using y by simp
    then show ?thesis ..
  qed
qed

lemma auth_wait_blocks:
  assumes "\<forall>n. \<not> is_responded 50 (snd (at_poll (\<lambda>j. feed (k + j)) n ts))"
  shows "auth_wait feed k ts naps = None"
proof (cases "auth_wait feed k ts naps")
  case None then show ?thesis .
next
  case (Some y)
  from auth_wait_Some[OF Some] assms show ?thesis by blast
qed

subsection \<open>The reception thread between polls\<close>

lemma reception_Receiving_running:
  "reception bufs r s = (Receiving r', s') \<Longrightarrow> running s'"
proof (induction bufs arbitrary: r s)
  case Nil
  then show ?case by (auto split: if_splits)
next
  case (Cons buf bufs)
  have run: "running s" using Cons.prems by (auto split: if_splits)
  have ne: "buf \<noteq> []" using Cons.prems run by (auto simp: peer_closed_def split: prod.splits)
  obtain res1 s1 where 1: "rx_bytes buf r s = (res1, s1)" by (cases "rx_bytes buf r s")
  show ?case
  proof (cases res1)
    case (Inl e)
    then show ?thesis using Cons.prems run ne 1 by simp
  next
    case (Inr r1)
    then have "reception bufs r1 s1 = (Receiving r', s')" using Cons.prems run ne 1 by simp
    then show ?thesis by (rule Cons.IH)
  qed
qed

lemma reception_append:
  "reception (a @ b) r s =
     (case reception a r s of (Receiving r', s') \<Rightarrow> reception b r' s' | other \<Rightarrow> other)"
proof (induction a arbitrary: r s)
  case Nil
  show ?case by (cases b) simp_all
next
  case (Cons buf a)
  show ?case
  proof (cases "\<not> running s")
    case True
    then show ?thesis by simp
  next
    case run: False
    show ?thesis
    proof (cases "buf = []")
      case True
      then show ?thesis using run by (simp add: peer_closed_def split: prod.splits)
    next
      case False
      obtain res1 s1 where 1: "rx_bytes buf r s = (res1, s1)" by (cases "rx_bytes buf r s")
      show ?thesis
      proof (cases res1)
        case (Inl e)
        then show ?thesis using run False 1 by simp
      next
        case (Inr r1)
        then show ?thesis using run False 1 Cons.IH[of r1 s1] by simp
      qed
    qed
  qed
qed

lemma reception_not_Started: "reception bufs r s \<noteq> (Started, s')"
proof (induction bufs arbitrary: r s)
  case Nil
  then show ?case by simp
next
  case (Cons buf bufs)
  obtain res1 s1 where 1: "rx_bytes buf r s = (res1, s1)" by (cases "rx_bytes buf r s")
  show ?case
  proof (cases res1)
    case (Inl e)
    then show ?thesis using 1 by (simp add: peer_closed_def split: prod.splits)
  next
    case (Inr r1)
    then show ?thesis using 1 Cons.IH[of r1 s1] by (simp add: peer_closed_def split: prod.splits)
  qed
qed

lemma thread_run_reception:
  "thread_run b (reception a r s) = reception (a @ b) r s"
proof -
  obtain t1 s1 where 1: "reception a r s = (t1, s1)" by (cases "reception a r s")
  show ?thesis
  proof (cases t1)
    case Started
    then show ?thesis using 1 reception_not_Started[of a r s s1] by simp
  next
    case (Receiving r1)
    then have "running s1" using 1 reception_Receiving_running by blast
    then show ?thesis using 1 Receiving
      by (simp add: reception_append thread_run_def resume_running)
  next
    case Returned
    then show ?thesis using 1 by (simp add: reception_append thread_run_def)
  next
    case (Raised e)
    then show ?thesis using 1 by (simp add: reception_append thread_run_def)
  qed
qed

lemma peer_closed_Returned: "fst (peer_closed s) = Returned"
  by (simp add: peer_closed_def split: prod.splits)

lemma thread_run_append:
  "thread_run (a @ b) ts = thread_run b (thread_run a ts)"
proof -
  obtain t s where ts: "ts = (t, s)" by (cases ts)
  show ?thesis
  proof (cases t)
    case Started
    then show ?thesis using ts thread_run_reception[of b a rx_init s]
      by (simp add: thread_run_def)
  next
    case (Receiving r)
    show ?thesis
    proof (cases a)
      case Nil
      then show ?thesis using ts Receiving by (simp add: thread_run_def resume_def)
    next
      case (Cons buf rest)
      show ?thesis
      proof (cases "buf = []")
        case True
        obtain s1 where "peer_closed s = (Returned, s1)"
          using peer_closed_Returned[of s] by (cases "peer_closed s") auto
        then show ?thesis using ts Receiving Cons True
          by (simp add: thread_run_def resume_def)
      next
        case False
        obtain res1 s1 where 1: "rx_bytes buf r s = (res1, s1)" by (cases "rx_bytes buf r s")
        show ?thesis
        proof (cases res1)
          case (Inl e)
          then show ?thesis using ts Receiving Cons False 1
            by (simp add: thread_run_def resume_def)
        next
          case (Inr r1)
          then show ?thesis using ts Receiving Cons False 1 thread_run_reception[of b rest r1 s1]
            by (simp add: thread_run_def resume_def)
        qed
      qed
    qed
  next
    case Returned
    then show ?thesis using ts by (simp add: thread_run_def)
  next
    case (Raised e)
    then show ?thesis using ts by (simp add: thread_run_def)
  qed
qed

lemma at_poll_Suc_concat:
  "at_poll feed (Suc n) ts = thread_run (concat (map feed [0..<Suc n])) ts"
proof (induction n)
  case 0
  show ?case by simp
next
  case (Suc n)
  have "at_poll feed (Suc (Suc n)) ts = thread_run (feed (Suc n)) (at_poll feed (Suc n) ts)"
    by simp
  also have "\<dots> = thread_run (concat (map feed [0..<Suc n]) @ feed (Suc n)) ts"
    unfolding Suc.IH by (rule thread_run_append[symmetric])
  also have "concat (map feed [0..<Suc n]) @ feed (Suc n) = concat (map feed [0..<Suc (Suc n)])"
    by simp
  finally show ?case .
qed

subsection \<open>A server that never replies to the authentication\<close>

lemma prefix_of_packets_unanswered:
  assumes "list_all2 (\<lambda>(pid, ptype, tx) pkt. build_packet pid ptype tx = Inr pkt) ps pkts"
    and "pre @ rest = concat pkts" "\<forall>p\<in>set ps. fst p \<noteq> 50" "\<not> is_responded 50 s"
    and "rx_bytes pre rx_init s = (res, s')"
  shows "\<not> is_responded 50 s'"
proof -
  let ?fin = "reported (map (\<lambda>(pid, ptype, tx). (pid, ptype, tx @ [0])) ps) s"
  have whole: "rx_bytes (pre @ rest) rx_init s = (Inr rx_init, ?fin)"
    using rx_bytes_packets[OF assms(1), of s] assms(2) by simp
  have "\<exists>r1. res = Inr r1 \<and> rx_bytes rest r1 s' = (Inr rx_init, ?fin)"
    using whole assms(5) by (cases res) (simp_all add: rx_bytes_append)
  then obtain r1 where "rx_bytes rest r1 s' = (Inr rx_init, ?fin)" by blast
  from rx_bytes_append_only[OF this] obtain ext where
    "responsed_to ?fin = responsed_to s' @ ext" ..
  then have "set (responsed_to s') \<subseteq> set (responsed_to ?fin)" by simp
  moreover have "Some 50 \<notin> set (responsed_to ?fin)"
    using assms(3,4) by (auto simp: reported_fields(1) is_responded_def)
  ultimately show ?thesis by (auto simp: is_responded_def)
qed

lemma never_replying:
  assumes "running s" "\<not> is_responded 50 s" "\<forall>j. [] \<notin> set (feed j)"
    and "\<forall>n. \<exists>ps pkts rest.
           list_all2 (\<lambda>(pid, ptype, tx) pkt. build_packet pid ptype tx = Inr pkt) ps pkts
           \<and> concat (concat (map feed [0..<n])) @ rest = concat pkts
           \<and> (\<forall>p\<in>set ps. fst p \<noteq> 50)"
  shows "\<not> is_responded 50 (snd (at_poll feed n (Started, s)))"
proof (cases n)
  case 0
  then show ?thesis using assms(2) by simp
next
  case (Suc m)
  let ?bufs = "concat (map feed [0..<n])"
  obtain ps pkts rest where
    h: "list_all2 (\<lambda>(pid, ptype, tx) pkt. build_packet pid ptype tx = Inr pkt) ps pkts"
       "concat ?bufs @ rest = concat pkts" "\<forall>p\<in>set ps. fst p \<noteq> 50"
    using assms(4) by blast
  have ne: "[] \<notin> set ?bufs" using assms(3) by auto
  obtain res s' where 1: "rx_bytes (concat ?bufs) rx_init s = (res, s')"
    by (cases "rx_bytes (concat ?bufs) rx_init s")
  have u: "\<not> is_responded 50 s'"
    using prefix_of_packets_unanswered[OF h assms(2) 1] .
  have "at_poll feed n (Started, s) = reception ?bufs rx_init s"
    unfolding Suc at_poll_Suc_concat by (simp add: thread_run_def)
  also have "snd \<dots> = s'"
    using reception_chunks[OF assms(1) ne, of rx_init] 1 by (cases res) simp_all
  finally show ?thesis using u by simp
qed

lemma connect_open_Inr:
  assumes "connect_open reachable rm s = (Inr u, th, s1)"
  shows "th = Some Started \<and> running s1 = running s \<and> responsed_to s1 = responsed_to s"
  using assms
  by (auto simp: connect_open_def Let_def print_with_prefix_def
           split: if_splits sum.splits prod.splits)

lemma at_poll_eta: "at_poll (\<lambda>j. feed (0 + j)) n ts = at_poll feed n ts"
  by simp

text \<open>
  Claim C8: once \<open>connect()\<close> has opened the socket, started the reception thread and
  sent the password, it returns only at a poll that finds the id 50 among the responded
  ids, having slept 200 ms after each poll that did not; it does return if some poll finds
  the id. Against a server whose bytes, whatever their chunks, are at every poll the
  beginning of a stream of packets none of which has the id 50, no poll ever finds the id
  and \<open>connect()\<close> never returns.
\<close>

theorem connect_waits_for_auth:
  assumes "connect_open reachable rm s = (Inr u, th, s1)"
  shows "(connect reachable rm feed s = Some out \<longrightarrow>
            (\<exists>n. out = (Inr u, Some (fst (at_poll feed n (Started, s1))),
                         snd (at_poll feed n (Started, s1)), replicate n 200)
               \<and> is_responded 50 (snd (at_poll feed n (Started, s1)))
               \<and> (\<forall>j<n. \<not> is_responded 50 (snd (at_poll feed j (Started, s1))))))
         \<and> ((\<exists>n. is_responded 50 (snd (at_poll feed n (Started, s1))))
              \<longrightarrow> connect reachable rm feed s \<noteq> None)
         \<and> (running s \<and> \<not> is_responded 50 s \<and> (\<forall>j. [] \<notin> set (feed j))
              \<and> (\<forall>n. \<exists>ps pkts rest.
                     list_all2 (\<lambda>(pid, ptype, tx) pkt. build_packet pid ptype tx = Inr pkt) ps pkts
                     \<and> concat (concat (map feed [0..<n])) @ rest = concat pkts
                     \<and> (\<forall>p\<in>set ps. fst p \<noteq> 50))
              \<longrightarrow> connect reachable rm feed s = None
                  \<and> (\<forall>n. \<not> is_responded 50 (snd (at_poll feed n (Started, s1)))))"
proof -
  note o = connect_open_Inr[OF assms]
  have co: "connect_open reachable rm s = (Inr u, Some Started, s1)" using assms o by simp
  have c: "connect reachable rm feed s =
             (case auth_wait feed 0 (Started, s1) [] of
                None \<Rightarrow> None
              | Some (k, (t', s''), naps) \<Rightarrow> Some (Inr u, Some t', s'', naps))"
    by (simp add: connect_def co split: option.splits)
  have p1: "\<exists>n. out = (Inr u, Some (fst (at_poll feed n (Started, s1))),
                         snd (at_poll feed n (Started, s1)), replicate n 200)
               \<and> is_responded 50 (snd (at_poll feed n (Started, s1)))
               \<and> (\<forall>j<n. \<not> is_responded 50 (snd (at_poll feed j (Started, s1))))"
    if r: "connect reachable rm feed s = Some out"
  proof -
    from r c obtain y where y: "auth_wait feed 0 (Started, s1) [] = Some y"
      by (cases "auth_wait feed 0 (Started, s1) []") auto
    from auth_wait_Some[OF y] obtain n where
      n: "y = (0 + n, at_poll (\<lambda>j. feed (0 + j)) n (Started, s1), [] @ replicate n 200)"
         "is_responded 50 (snd (at_poll (\<lambda>j. feed (0 + j)) n (Started, s1)))"
         "\<forall>j<n. \<not> is_responded 50 (snd (at_poll (\<lambda>j. feed (0 + j)) j (Started, s1)))"
      by blast
    have "out = (Inr u, Some (fst (at_poll feed n (Started, s1))),
                 snd (at_poll feed n (Started, s1)), replicate n 200)"
      using r c y n(1) unfolding at_poll_eta by (simp add: case_prod_unfold)
    then show ?thesis using n(2,3) unfolding at_poll_eta by blast
  qed
  have p2: "connect reachable rm feed s \<noteq> None"
    if "\<exists>n. is_responded 50 (snd (at_poll feed n (Started, s1)))"
  proof -
    from that obtain n where "is_responded 50 (snd (at_poll (\<lambda>j. feed (0 + j)) n (Started, s1)))"
      unfolding at_poll_eta ..
    from auth_wait_returns[OF this, of "[]"] obtain y where
      "auth_wait feed 0 (Started, s1) [] = Some y" ..
    then show ?thesis using c by (simp add: case_prod_unfold)
  qed
  have p3: "connect reachable rm feed s = None
            \<and> (\<forall>n. \<not> is_responded 50 (snd (at_poll feed n (Started, s1))))"
    if h: "running s \<and> \<not> is_responded 50 s \<and> (\<forall>j. [] \<notin> set (feed j))
              \<and> (\<forall>n. \<exists>ps pkts rest.
                     list_all2 (\<lambda>(pid, ptype, tx) pkt. build_packet pid ptype tx = Inr pkt) ps pkts
                     \<and> concat (concat (map feed [0..<n])) @ rest = concat pkts
                     \<and> (\<forall>p\<in>set ps. fst p \<noteq> 50))"
  proof -
    have run: "running s1" and un: "\<not> is_responded 50 s1"
      using h o by (simp_all add: is_responded_def)
    have never: "\<forall>n. \<not> is_responded 50 (snd (at_poll feed n (Started, s1)))"
    proof
      fix n
      show "\<not> is_responded 50 (snd (at_poll feed n (Started, s1)))"
        using h by (intro never_replying[OF run un]) blast+
    qed
    then have "\<forall>n. \<not> is_responded 50 (snd (at_poll (\<lambda>j. feed (0 + j)) n (Started, s1)))"
      unfolding at_poll_eta .
    from auth_wait_blocks[OF this, of "[]"] have "connect reachable rm feed s = None"
      using c by simp
    then show ?thesis using never by blast
  qed
  show ?thesis using p1 p2 p3 by blast
qed

theorem connect_waits_for_auth_witness:
  "connect True 4096 (\<lambda>k. []) (init (ascii ''10.0.0.5'') 27020 (ascii ''hunter2'') []) = None
   \<and> (\<exists>th s'. connect True 4096
                  (\<lambda>k. if k = 0 then [[10, 0, 0, 0, 50, 0, 0, 0, 2, 0, 0, 0, 0, 0]] else [])
                  (init (ascii ''10.0.0.5'') 27020 (ascii ''hunter2'') [])
                = Some (Inr (), th, s', [200])
              \<and> is_responded 50 s')"
proof -
  let ?s = "init (ascii ''10.0.0.5'') 27020 (ascii ''hunter2'') []"
  let ?feed = "\<lambda>k::nat. if k = 0 then [[10, 0, 0, 0, 50, 0, 0, 0, 2, 0, 0, 0, 0, 0 :: byte]] else []"
  let ?s1 = "snd (snd (connect_open True 4096 ?s))"
  have pw: "build_packet 50 3 (ascii ''hunter2'')
     = Inr [0x11, 0, 0, 0, 0x32, 0, 0, 0, 3, 0, 0, 0,
            0x68, 0x75, 0x6E, 0x74, 0x65, 0x72, 0x32, 0x00, 0x00]"
    by (rule hunter2_packet)
  have "fst (connect_open True 4096 ?s) = Inr ()"
    by (simp add: connect_open_def Let_def init_def print_with_prefix_def SERVERDATA_AUTH_def pw
          sock_send_def)
  then have co: "connect_open True 4096 ?s = (Inr (), fst (snd (connect_open True 4096 ?s)), ?s1)"
    by (metis prod.collapse)
  note o = connect_open_Inr[OF co]
  have run: "running ?s" and un: "\<not> is_responded 50 ?s"
    by (simp_all add: init_def is_responded_def)
  have run1: "running ?s1" and un1: "\<not> is_responded 50 ?s1"
    using o run un by (simp_all add: is_responded_def)
  note w0 = connect_waits_for_auth[OF co, of "\<lambda>k. []"]
  have silent: "\<forall>n. \<exists>ps pkts rest.
           list_all2 (\<lambda>(pid, ptype, tx) pkt. build_packet pid ptype tx = Inr pkt) ps pkts
           \<and> concat (concat (map (\<lambda>k::nat. []) [0..<n])) @ rest = concat pkts
           \<and> (\<forall>p\<in>set ps. fst p \<noteq> 50)"
  proof
    fix n :: nat
    have "list_all2 (\<lambda>(pid, ptype, tx) pkt. build_packet pid ptype tx = Inr pkt) [] []
           \<and> concat (concat (map (\<lambda>k::nat. []) [0..<n])) @ [] = concat ([] :: byte list list)
           \<and> (\<forall>p\<in>set ([] :: (int \<times> int \<times> pystr) list). fst p \<noteq> 50)"
      by simp
    then show "\<exists>ps pkts rest.
           list_all2 (\<lambda>(pid, ptype, tx) pkt. build_packet pid ptype tx = Inr pkt) ps pkts
           \<and> concat (concat (map (\<lambda>k::nat. []) [0..<n])) @ rest = concat pkts
           \<and> (\<forall>p\<in>set ps. fst p \<noteq> 50)"
      by blast
  qed
  have a: "connect True 4096 (\<lambda>k. []) ?s = None"
    using w0 run un silent by simp
  have reply: "build_packet 50 2 [] = Inr [10, 0, 0, 0, 50, 0, 0, 0, 2, 0, 0, 0, 0, 0]"
    by (simp add: build_packet_def int_to_bytes_def numeral_eq_Suc)
  have p1: "at_poll ?feed 1 (Started, ?s1)
              = (Receiving rx_init,
                 ?s1\<lparr>responsed_to := responsed_to ?s1 @ [Some 50],
                     printer := printer ?s1 @ [([] @ [0], Some 50, Some 2)]\<rparr>)"
    using reception_one_packet[OF reply run1]
    by (simp add: thread_run_def del: reception.simps)
  have r1: "is_responded 50 (snd (at_poll ?feed 1 (Started, ?s1)))"
    unfolding p1 by (simp add: is_responded_def)
  note w1 = connect_waits_for_auth[OF co, of ?feed]
  from w1 r1 have "connect True 4096 ?feed ?s \<noteq> None" by blast
  then obtain out where out: "connect True 4096 ?feed ?s = Some out" by auto
  from w1[of out] out obtain n where
    n: "out = (Inr (), Some (fst (at_poll ?feed n (Started, ?s1))),
               snd (at_poll ?feed n (Started, ?s1)), replicate n 200)"
       "is_responded 50 (snd (at_poll ?feed n (Started, ?s1)))"
       "\<forall>j<n. \<not> is_responded 50 (snd (at_poll ?feed j (Started, ?s1)))"
    by blast
  have "n \<noteq> 0" using n(2) un1 by (cases n) auto
  moreover have "\<not> 1 < n" using n(3) r1 by blast
  ultimately have "n = 1" by simp
  then have "out = (Inr (), Some (fst (at_poll ?feed 1 (Started, ?s1))),
               snd (at_poll ?feed 1 (Started, ?s1)), [200])"
    using n(1) by simp
  then have "\<exists>th s'. connect True 4096 ?feed ?s = Some (Inr (), th, s', [200])
              \<and> is_responded 50 s'"
    using out r1 by blast
  then show ?thesis using a by blast
qed

end
